theory Spec2Isabelle
  imports Main "HOL-Library.Word" "HOL-Library.Multiset" "HOL-Library.AList"
begin

section \<open>The dial scheduler of p2p/dial.go\<close>

subsection \<open>Machine integers\<close>

text \<open>
  Go's \<open>int\<close>, \<open>time.Duration\<close> and \<open>mclock.AbsTime\<close> are 64-bit two's complement
  integers. They are modelled as \<open>int\<close>, and every addition, subtraction and
  multiplication of the source is followed by \<open>wrap64\<close>, which reads the result back
  into the 64-bit range as the hardware does.
\<close>

definition wrap64 :: "int \<Rightarrow> int" where
  "wrap64 x = (x + 2 ^ 63) mod 2 ^ 64 - 2 ^ 63"

definition int64 :: "int \<Rightarrow> bool" where
  "int64 x = (- (2 ^ 63) \<le> x \<and> x < 2 ^ 63)"

subsection \<open>Data model\<close>

type_synonym ID = "256 word"  \<comment> \<open>\<open>enode.ID\<close>, a \<open>[32]byte\<close>\<close>
type_synonym IP = "8 word list"  \<comment> \<open>\<open>net.IP\<close>, a byte slice; \<open>nil\<close> is \<open>None\<close> below\<close>

text \<open>
  Modelled from the spec: \<open>enode.Node\<close> is declared in package \<open>enode\<close>. The scheduler
  sees a node through a pointer and the accessors \<open>ID()\<close>, \<open>IP()\<close> and \<open>TCP()\<close>: a
  stable identifier, an optional IP address and a TCP port (0 when there is none).
  \<open>node_ptr\<close> is the address of the node object, so that two records are equal exactly
  when the two \<open>*enode.Node\<close> pointers are.
\<close>

record Node =
  node_ptr :: nat
  node_ID :: ID
  node_IP :: "IP option"
  node_TCP :: int

text \<open>
  Modelled from the spec: \<open>connFlag\<close> and its constants are declared in server.go. A
  flag value is a bit set with one bit for each connection kind; \<open>f & k != 0\<close> for a
  constant \<open>k\<close> is membership of \<open>k\<close>.
\<close>

datatype connKind = dynDialedConn | staticDialedConn | inboundConn | trustedConn

type_synonym connFlag = "connKind set"

text \<open>The \<open>checkDial\<close> errors, the errors of the outside world, and \<open>dialError\<close>, which wraps one.\<close>

datatype error =
    errSelf
  | errAlreadyDialing
  | errAlreadyConnected
  | errRecentlyDialed
  | errNetRestrict
  | errNoPort
  | externalError string
  | dialError error

datatype panic = Panic string | NilPointerDereference

text \<open>An entry of the candidate pool (\<open>dialTask2\<close>) and the pool (\<open>dialQueue\<close>).\<close>

record dialTask2 =
  index :: int
  addr :: Node
  insertTime :: int
  isStatic :: bool
  priority :: "64 word"

text \<open>
  \<open>heap\<close> is the slice \<open>dialQueueImpl\<close>. \<open>items\<close> is the map from node pointers to
  entries; the source only ever tests its keys, counts them and deletes them, and the
  model keeps under each key the entry as it was when inserted.
\<close>

record dialQueue =
  heap :: "dialTask2 list"
  items :: "(Node \<times> dialTask2) list"

record dialTask =
  flags :: connFlag
  dest :: Node
  lastResolved :: int
  resolveDelay :: int

text \<open>
  The outside world. Every call that leaves the scheduler (the clocks, the resolver, the
  dialer, the setup callback) is answered by an oracle applied to the number of such
  calls made so far, \<open>ticks\<close>, so that two calls with the same arguments may be
  answered differently. \<open>trace\<close> records the calls in the order they are made.
\<close>

datatype event =
    CallResolve Node
  | QueryResolver Node
  | CallDial Node
  | CallSetup Node
  | SendDone dialTask

record world =
  ticks :: nat
  time_Now :: "nat \<Rightarrow> int"
  trace :: "event list"

record dialConfig =
  self :: ID
  maxDialPeers :: int
  maxActiveDials :: int
  netRestrict :: "(IP option \<Rightarrow> bool) option"
  resolver :: "(nat \<Rightarrow> Node \<Rightarrow> Node option) option"
  dialer :: "nat \<Rightarrow> Node \<Rightarrow> error + nat"
  clock :: "nat \<Rightarrow> int"

text \<open>
  Modelled from the spec: the dial history is a \<open>delayheap.PeriodicDispatcher\<close>, declared
  in package \<open>delayheap\<close>. It is an expiring set: \<open>Add\<close> records an identifier until a
  given instant and refreshes the instant of an identifier already present,
  \<open>ContainsID\<close> tests membership, and a background dispatcher removes every entry once
  its instant has passed. The source keys the set by \<open>ID().String()\<close>, the hexadecimal
  form of the identifier, which determines the identifier.
\<close>

type_synonym history = "ID \<rightharpoonup> int"

definition history_Add :: "history \<Rightarrow> ID \<Rightarrow> int \<Rightarrow> history" where
  "history_Add h k expiresAt = h(k \<mapsto> expiresAt)"

definition history_ContainsID :: "history \<Rightarrow> ID \<Rightarrow> bool" where
  "history_ContainsID h k = (h k \<noteq> None)"

definition history_dispatch :: "int \<Rightarrow> history \<Rightarrow> history" where
  "history_dispatch now h =
     (\<lambda>k. case h k of None \<Rightarrow> None
          | Some expiresAt \<Rightarrow> if expiresAt \<le> now then None else Some expiresAt)"

text \<open>
  The scheduler. \<open>dialing\<close>, \<open>peers\<close> and \<open>static\<close> are maps to \<open>struct{}\<close>, that is
  sets of identifiers. The channels and the two fields of \<open>logStats\<close> are left out.
\<close>

record dialScheduler =
  config :: dialConfig
  setupFunc :: "nat \<Rightarrow> nat \<Rightarrow> connFlag \<Rightarrow> Node \<Rightarrow> error option"
  dialing :: "ID set"
  peers :: "ID set"
  static :: "ID set"
  dialPeers :: int
  staticPool :: dialQueue
  history :: history

subsection \<open>Constants\<close>

definition Second :: int where
  "Second = 1000000000"

definition initialResolveDelay :: int where
  "initialResolveDelay = 60 * Second"

definition maxResolveDelay :: int where
  "maxResolveDelay = 3600 * Second"

text \<open>
  \<open>inboundThrottleTime\<close> is declared in server.go and is a parameter here. The sum is
  a constant expression, which Go evaluates exactly.
\<close>

definition dialHistoryExpiration :: "int \<Rightarrow> int" where
  "dialHistoryExpiration inboundThrottleTime = inboundThrottleTime + 5 * Second"

definition staticPriority :: "64 word" where
  "staticPriority = 5"

definition normalPriority :: "64 word" where
  "normalPriority = 10"

subsection \<open>Enqueue\<close>

text \<open>
  \<open>Enqueue\<close> makes the scheduler an enqueuer for the periodic dispatcher of the
  history. Its body is \<open>panic("x")\<close>. A \<open>delayheap.HeapNode\<close> is seen through \<open>ID()\<close>,
  a string.
\<close>

definition Enqueue :: "dialScheduler \<Rightarrow> string \<Rightarrow> panic + unit" where
  "Enqueue d h = Inl (Panic ''x'')"

subsection \<open>freeDialSlots and checkDial\<close>

definition len_set :: "'a set \<Rightarrow> int" where
  "len_set m = int (card m)"

definition freeDialSlots :: "dialScheduler \<Rightarrow> int" where
  "freeDialSlots d =
     (let slots = wrap64 (wrap64 (maxDialPeers (config d) - dialPeers d) * 2);
          slots = (if slots > maxActiveDials (config d) then maxActiveDials (config d) else slots);
          free = wrap64 (slots - len_set (dialing d))
      in free)"

definition checkDial :: "dialScheduler \<Rightarrow> Node \<Rightarrow> error option" where
  "checkDial d n =
     (if node_ID n = self (config d) then Some errSelf
      else if node_IP n \<noteq> None \<and> node_TCP n = 0 then Some errNoPort
      else if node_ID n \<in> dialing d then Some errAlreadyDialing
      else if node_ID n \<in> peers d then Some errAlreadyConnected
      else if (case netRestrict (config d) of None \<Rightarrow> False
               | Some contains \<Rightarrow> \<not> contains (node_IP n)) then Some errNetRestrict
      else if history_ContainsID (history d) (node_ID n) then Some errRecentlyDialed
      else None)"


subsection \<open>The candidate pool\<close>

text \<open>
  The methods of \<open>dialQueueImpl\<close> that \<open>container/heap\<close> calls. \<open>Less\<close>, \<open>Swap\<close> and
  \<open>Pop\<close> index the slice; \<open>container/heap\<close> calls them with indices below the length
  only (\<open>up\<close> goes to a parent, \<open>down\<close> tests a child against \<open>n\<close> before it reads
  it), and \<open>popImpl\<close> calls \<open>heap.Pop\<close> on a slice that is not empty.
\<close>

definition Less :: "dialTask2 list \<Rightarrow> nat \<Rightarrow> nat \<Rightarrow> bool" where
  "Less t i j =
     (if priority (t ! i) = priority (t ! j) then insertTime (t ! i) < insertTime (t ! j)
      else priority (t ! i) < priority (t ! j))"

definition Swap :: "dialTask2 list \<Rightarrow> nat \<Rightarrow> nat \<Rightarrow> dialTask2 list" where
  "Swap t i j =
     (let t1 = t[i := t ! j, j := t ! i];
          t2 = t1[i := (t1 ! i)\<lparr>index := int i\<rparr>];
          t3 = t2[j := (t2 ! j)\<lparr>index := int j\<rparr>]
      in t3)"

definition Push :: "dialTask2 list \<Rightarrow> dialTask2 \<Rightarrow> dialTask2 list" where
  "Push t x = (let n = length t; item = x\<lparr>index := int n\<rparr> in t @ [item])"

definition Pop :: "dialTask2 list \<Rightarrow> dialTask2 \<times> dialTask2 list" where
  "Pop t =
     (let n = length t;
          item = t ! (n - 1)
      in (item\<lparr>index := - 1\<rparr>, take (n - 1) t))"

text \<open>
  \<open>up\<close>, \<open>down\<close>, \<open>heap.Push\<close> and \<open>heap.Pop\<close> of Go's \<open>container/heap\<close>. Indices are
  natural numbers: the parent \<open>(j - 1) / 2\<close> of index 0 is 0 in Go, where the division
  truncates, and here, where the subtraction stops at 0. The test \<open>j1 < 0\<close> of \<open>down\<close>
  guards against an overflow of \<open>2*i + 1\<close>, which no slice in memory is long enough
  for, and \<open>down\<close>'s boolean result is dropped, as \<open>heap.Pop\<close> drops it.
\<close>

function up :: "dialTask2 list \<Rightarrow> nat \<Rightarrow> dialTask2 list" where
  "up h j =
     (let i = (j - 1) div 2 in
      if i = j \<or> \<not> Less h j i then h
      else up (Swap h i j) i)"
  by pat_completeness auto
termination
  by (relation "measure (\<lambda>(h, j). j)") auto

function down :: "dialTask2 list \<Rightarrow> nat \<Rightarrow> nat \<Rightarrow> dialTask2 list" where
  "down h i n =
     (let j1 = 2 * i + 1 in
      if j1 \<ge> n then h
      else
        let j = (if j1 + 1 < n \<and> Less h (j1 + 1) j1 then j1 + 1 else j1) in
        if \<not> Less h j i then h
        else down (Swap h i j) j n)"
  by pat_completeness auto
termination
  by (relation "measure (\<lambda>(h, i, n). n - i)") auto

declare up.simps [simp del]
declare down.simps [simp del]

text \<open>None of them changes the length of the slice.\<close>

lemma length_Swap [simp]: "length (Swap t i j) = length t"
  by (simp add: Swap_def Let_def)

lemma length_up [simp]: "length (up h j) = length h"
proof (induction h j rule: up.induct)
  case (1 h j)
  then show ?case
    by (subst up.simps) (simp add: Let_def)
qed

lemma length_down [simp]: "length (down h i n) = length h"
proof (induction h i n rule: down.induct)
  case (1 h i n)
  then show ?case
    by (subst down.simps) (simp add: Let_def)
qed

definition heap_Push :: "dialTask2 list \<Rightarrow> dialTask2 \<Rightarrow> dialTask2 list" where
  "heap_Push h x = (let h1 = Push h x in up h1 (length h1 - 1))"

definition heap_Pop :: "dialTask2 list \<Rightarrow> dialTask2 \<times> dialTask2 list" where
  "heap_Pop h =
     (let n = length h - 1;
          h1 = Swap h 0 n;
          h2 = down h1 0 n
      in Pop h2)"

text \<open>
  The pool itself. Each method holds the mutex for its whole body and is one step
  here. \<open>add\<close> reads \<open>time.Now()\<close>, which is the argument \<open>now\<close>.
\<close>

definition newDialQueue :: dialQueue where
  "newDialQueue = \<lparr>heap = [], items = []\<rparr>"

definition popImpl :: "dialQueue \<Rightarrow> dialTask2 option \<times> dialQueue" where
  "popImpl d =
     (if length (heap d) \<noteq> 0 then
        (let (tt, h) = heap_Pop (heap d)
         in (Some tt, d\<lparr>heap := h, items := AList.delete (addr tt) (items d)\<rparr>))
      else (None, d))"

definition Len :: "dialQueue \<Rightarrow> int" where
  "Len d = int (length (items d))"

definition add :: "dialQueue \<Rightarrow> Node \<Rightarrow> bool \<Rightarrow> 64 word \<Rightarrow> int \<Rightarrow> dialQueue" where
  "add d a isStatic' priority' now =
     (if map_of (items d) a \<noteq> None then d
      else
        let task = \<lparr>index = 0, addr = a, insertTime = now,
                    isStatic = isStatic', priority = priority'\<rparr>
        in d\<lparr>items := AList.update a task (items d), heap := heap_Push (heap d) task\<rparr>)"

text \<open>A successful \<open>popImpl\<close> shortens the slice.\<close>

lemma length_heap_Pop: "h \<noteq> [] \<Longrightarrow> length (snd (heap_Pop h)) < length h"
  by (simp add: heap_Pop_def Pop_def Let_def)

lemma length_popImpl:
  "popImpl d = (Some tt, q) \<Longrightarrow> length (heap q) < length (heap d)"
  using length_heap_Pop [of "heap d"]
  by (auto simp: popImpl_def Let_def split_def split: if_splits)

subsection \<open>Dial tasks\<close>

definition newDialTask :: "Node \<Rightarrow> connFlag \<Rightarrow> dialTask" where
  "newDialTask dest' flags' = \<lparr>flags = flags', dest = dest', lastResolved = 0, resolveDelay = 0\<rparr>"

text \<open>
  \<open>startStaticDials\<close>. The loop runs while \<open>started < n\<close> and the pool reports a
  positive \<open>Len\<close>; every round pops one entry, so the loop ends. \<open>popImpl\<close> returns nil
  when the slice is empty, and the loop then reads a field of nil and panics.
  The pool is shared with the goroutine that feeds it; the loop is taken here without
  such a goroutine running in between.
\<close>

function startStaticDials_loop ::
  "dialScheduler \<Rightarrow> int \<Rightarrow> int \<Rightarrow> dialTask list \<Rightarrow> panic + (int \<times> dialTask list \<times> dialScheduler)"
where
  "startStaticDials_loop d n started res =
     (if started < n \<and> Len (staticPool d) > 0 then
        (case popImpl (staticPool d) of
           (None, q) \<Rightarrow> Inl NilPointerDereference
         | (Some task, q) \<Rightarrow>
             let d' = d\<lparr>staticPool := q\<rparr> in
             if isStatic task \<and> node_ID (addr task) \<notin> static d' then
               startStaticDials_loop d' n started res
             else if node_ID (addr task) \<in> peers d' then
               startStaticDials_loop d' n started res
             else
               (case checkDial d' (addr task) of
                  Some err \<Rightarrow> startStaticDials_loop d' n started res
                | None \<Rightarrow>
                    let ttt = (if isStatic task then newDialTask (addr task) {staticDialedConn}
                               else newDialTask (addr task) {dynDialedConn})
                    in startStaticDials_loop d' n (wrap64 (started + 1)) (res @ [ttt])))
      else Inr (started, res, d))"
  by pat_completeness auto
termination
  by (relation "measure (\<lambda>(d, n, started, res). length (heap (staticPool d)))")
    (auto dest: length_popImpl [OF sym])

declare startStaticDials_loop.simps [simp del]

definition startStaticDials :: "dialScheduler \<Rightarrow> panic + (int \<times> dialTask list \<times> dialScheduler)" where
  "startStaticDials d = (let n = freeDialSlots d in startStaticDials_loop d n 0 [])"

text \<open>
  The calls that leave the scheduler write to the trace and take the next tick.
\<close>

definition emit :: "event \<Rightarrow> world \<Rightarrow> world" where
  "emit ev w = w\<lparr>trace := trace w @ [ev]\<rparr>"

definition tick :: "world \<Rightarrow> world" where
  "tick w = w\<lparr>ticks := Suc (ticks w)\<rparr>"

definition needResolve :: "dialTask \<Rightarrow> bool" where
  "needResolve t = (staticDialedConn \<in> flags t \<and> node_IP (dest t) = None)"

text \<open>
  \<open>resolve\<close>. The trace gets \<open>CallResolve\<close> when \<open>resolve\<close> is entered and
  \<open>QueryResolver\<close> when the resolver is asked. The clock is read in the throttle
  test only if \<open>lastResolved > 0\<close>, as \<open>&&\<close> has it, and once more after the resolver
  has answered.
\<close>

definition resolve :: "dialScheduler \<Rightarrow> dialTask \<Rightarrow> world \<Rightarrow> bool \<times> dialTask \<times> world" where
  "resolve d t w =
     (let w = emit (CallResolve (dest t)) w in
      case resolver (config d) of
        None \<Rightarrow> (False, t, w)
      | Some Resolve \<Rightarrow>
          let t = (if resolveDelay t = 0 then t\<lparr>resolveDelay := initialResolveDelay\<rparr> else t);
              throttled = (lastResolved t > 0
                 \<and> wrap64 (clock (config d) (ticks w) - lastResolved t) < resolveDelay t);
              w = (if lastResolved t > 0 then tick w else w)
          in if throttled then (False, t, w)
             else
               let resolved = Resolve (ticks w) (dest t);
                   w = tick (emit (QueryResolver (dest t)) w);
                   t = t\<lparr>lastResolved := clock (config d) (ticks w)\<rparr>;
                   w = tick w
               in case resolved of
                    None \<Rightarrow>
                      let t = t\<lparr>resolveDelay := wrap64 (resolveDelay t * 2)\<rparr>;
                          t = (if resolveDelay t > maxResolveDelay
                               then t\<lparr>resolveDelay := maxResolveDelay\<rparr> else t)
                      in (False, t, w)
                  | Some n \<Rightarrow>
                      (True, t\<lparr>resolveDelay := initialResolveDelay, dest := n\<rparr>, w))"

text \<open>
  \<open>dial\<close>. A dialer error comes back wrapped in \<open>dialError\<close>; otherwise the result is
  that of \<open>setupFunc\<close> on the connection (\<open>newMeteredConn\<close> only wraps it).
\<close>

definition dial :: "dialScheduler \<Rightarrow> dialTask \<Rightarrow> world \<Rightarrow> error option \<times> world" where
  "dial d t w =
     (let dest' = dest t;
          r = dialer (config d) (ticks w) (dest t);
          w = tick (emit (CallDial (dest t)) w)
      in case r of
           Inl err \<Rightarrow> (Some (dialError err), w)
         | Inr fd \<Rightarrow>
             (setupFunc d (ticks w) fd (flags t) dest', tick (emit (CallSetup dest') w)))"

text \<open>\<open>err.(*dialError)\<close>: whether the error is a \<open>dialError\<close>.\<close>

fun is_dialError :: "error \<Rightarrow> bool" where
  "is_dialError (dialError e) = True"
| "is_dialError _ = False"

text \<open>
  \<open>startDial\<close>. \<open>startDial_dial\<close> is the closure \<open>dial\<close> of the source. The goroutine
  that \<open>startDial\<close> starts runs the closure and then sends the task on \<open>doneCh\<close>; its
  body is run here at the point where it is started, and the send is the trace event
  \<open>SendDone\<close>. \<open>time.Now()\<close> is the oracle \<open>time_Now\<close>, an instant counted in
  nanoseconds.
\<close>

definition startDial_dial :: "dialScheduler \<Rightarrow> dialTask \<Rightarrow> world \<Rightarrow> dialTask \<times> world" where
  "startDial_dial d task w =
     (let (err, w) = dial d task w in
      case err of
        None \<Rightarrow> (task, w)
      | Some e \<Rightarrow>
          if is_dialError e \<and> staticDialedConn \<in> flags task then
            (let (ok, task, w) = resolve d task w in
             if ok then (let (err2, w) = dial d task w in (task, w))
             else (task, w))
          else (task, w))"

definition startDial ::
  "int \<Rightarrow> dialScheduler \<Rightarrow> dialTask \<Rightarrow> world \<Rightarrow> dialScheduler \<times> dialTask \<times> world" where
  "startDial inboundThrottleTime d task w =
     (let now = time_Now w (ticks w);
          w = tick w;
          d = d\<lparr>history := history_Add (history d) (node_ID (dest task))
                  (now + dialHistoryExpiration inboundThrottleTime)\<rparr>;
          d = d\<lparr>dialing := insert (node_ID (dest task)) (dialing d)\<rparr>;
          (resolved, task, w) =
             (if needResolve task then resolve d task w else (True, task, w))
      in if \<not> resolved then (d, task, w)
         else
           let (task, w) = startDial_dial d task w;
               w = emit (SendDone task) w
           in (d, task, w))"

subsection \<open>Notions for the pool's properties\<close>

text \<open>
  \<open>lessTask\<close> is the comparison of \<open>Less\<close> on two entries, and \<open>leTask a b\<close> says that
  \<open>b\<close> is not before \<open>a\<close>. \<open>content\<close> is an entry without its heap position, and
  \<open>entries\<close> the multiset of the contents of a slice.
\<close>

definition lessTask :: "dialTask2 \<Rightarrow> dialTask2 \<Rightarrow> bool" where
  "lessTask a b =
     (if priority a = priority b then insertTime a < insertTime b
      else priority a < priority b)"

definition leTask :: "dialTask2 \<Rightarrow> dialTask2 \<Rightarrow> bool" where
  "leTask a b = (\<not> lessTask b a)"

definition content :: "dialTask2 \<Rightarrow> Node \<times> int \<times> bool \<times> 64 word" where
  "content e = (addr e, insertTime e, isStatic e, priority e)"

definition entries :: "dialTask2 list \<Rightarrow> (Node \<times> int \<times> bool \<times> 64 word) multiset" where
  "entries h = mset (map content h)"

text \<open>
  For \<open>resolve\<close>: the delay a call works with (a delay of 0 stands for the initial
  one), whether the call is throttled, and the tick at which the resolver is asked if
  it is not.
\<close>

definition effective_delay :: "dialTask \<Rightarrow> int" where
  "effective_delay t = (if resolveDelay t = 0 then initialResolveDelay else resolveDelay t)"

definition throttled :: "dialScheduler \<Rightarrow> dialTask \<Rightarrow> world \<Rightarrow> bool" where
  "throttled d t w =
     (lastResolved t > 0
      \<and> wrap64 (clock (config d) (ticks w) - lastResolved t) < effective_delay t)"

definition resolver_tick :: "dialTask \<Rightarrow> world \<Rightarrow> nat" where
  "resolver_tick t w = (if lastResolved t > 0 then Suc (ticks w) else ticks w)"

text \<open>
  The events a call adds to the trace, and how many of them are calls of \<open>dial\<close>
  and of \<open>resolve\<close>.
\<close>

definition events_since :: "world \<Rightarrow> world \<Rightarrow> event list" where
  "events_since w w' = drop (length (trace w)) (trace w')"

fun dial_calls :: "event list \<Rightarrow> nat" where
  "dial_calls [] = 0"
| "dial_calls (CallDial n # evs) = Suc (dial_calls evs)"
| "dial_calls (ev # evs) = dial_calls evs"

fun resolve_calls :: "event list \<Rightarrow> nat" where
  "resolve_calls [] = 0"
| "resolve_calls (CallResolve n # evs) = Suc (resolve_calls evs)"
| "resolve_calls (ev # evs) = resolve_calls evs"

text \<open>
  For \<open>startStaticDials\<close>: the task it builds for a pool entry, what it demands of an
  entry before it builds one, and the identifiers and flags of the tasks it returns.
\<close>

definition task_of_entry :: "dialTask2 \<Rightarrow> dialTask" where
  "task_of_entry e =
     newDialTask (addr e) (if isStatic e then {staticDialedConn} else {dynDialedConn})"

definition admits :: "dialScheduler \<Rightarrow> dialTask2 \<Rightarrow> bool" where
  "admits d e =
     ((isStatic e \<longrightarrow> node_ID (addr e) \<in> static d)
      \<and> node_ID (addr e) \<notin> peers d
      \<and> checkDial d (addr e) = None)"

definition started_flags :: "dialScheduler \<Rightarrow> (ID \<times> connFlag) list" where
  "started_flags d =
     (case startStaticDials d of
        Inl p \<Rightarrow> []
      | Inr (started, res, d') \<Rightarrow> map (\<lambda>t. (node_ID (dest t), flags t)) res)"

text \<open>The tasks sent on \<open>doneCh\<close>, in order.\<close>

fun reports :: "event list \<Rightarrow> dialTask list" where
  "reports [] = []"
| "reports (SendDone t # evs) = t # reports evs"
| "reports (ev # evs) = reports evs"

text \<open>
  The heap order on the first \<open>n\<close> elements of a slice: no element is before its
  parent. \<open>heap_except_up\<close> and \<open>heap_except_down\<close> are the order with one index
  still to be moved up, or down.
\<close>

definition heap_ok :: "dialTask2 list \<Rightarrow> nat \<Rightarrow> bool" where
  "heap_ok h n = (\<forall>k. 0 < k \<and> k < n \<longrightarrow> leTask (h ! ((k - 1) div 2)) (h ! k))"

definition heap_except_up :: "dialTask2 list \<Rightarrow> nat \<Rightarrow> nat \<Rightarrow> bool" where
  "heap_except_up h n j =
     ((\<forall>k. 0 < k \<and> k < n \<and> k \<noteq> j \<longrightarrow> leTask (h ! ((k - 1) div 2)) (h ! k))
      \<and> (\<forall>k. 0 < k \<and> k < n \<and> (k - 1) div 2 = j \<and> 0 < j
             \<longrightarrow> leTask (h ! ((j - 1) div 2)) (h ! k)))"

definition heap_except_down :: "dialTask2 list \<Rightarrow> nat \<Rightarrow> nat \<Rightarrow> bool" where
  "heap_except_down h n i =
     ((\<forall>k. 0 < k \<and> k < n \<and> (k - 1) div 2 \<noteq> i \<longrightarrow> leTask (h ! ((k - 1) div 2)) (h ! k))
      \<and> (\<forall>k. 0 < k \<and> k < n \<and> (k - 1) div 2 = i \<and> 0 < i
             \<longrightarrow> leTask (h ! ((i - 1) div 2)) (h ! k)))"

text \<open>
  The invariant of the pool: the slice is in heap order, no node has two entries, and
  the keys of \<open>items\<close> are the nodes of the slice.
\<close>

definition pool_inv :: "dialQueue \<Rightarrow> bool" where
  "pool_inv d =
     (heap_ok (heap d) (length (heap d))
      \<and> distinct (map addr (heap d))
      \<and> distinct (map fst (items d))
      \<and> set (map fst (items d)) = set (map addr (heap d)))"

text \<open>
  The states of a pool are those that \<open>add\<close> and \<open>popImpl\<close> reach from
  \<open>newDialQueue\<close>: \<open>run_ops\<close> runs a list of calls.
\<close>

datatype poolOp = OpAdd Node bool "64 word" int | OpPop

fun apply_op :: "dialQueue \<Rightarrow> poolOp \<Rightarrow> dialQueue" where
  "apply_op d (OpAdd a s p now) = add d a s p now"
| "apply_op d OpPop = snd (popImpl d)"

definition run_ops :: "poolOp list \<Rightarrow> dialQueue" where
  "run_ops ops = foldl apply_op newDialQueue ops"

subsection \<open>Example values\<close>

definition example_config :: dialConfig where
  "example_config =
     \<lparr>self = 1, maxDialPeers = 3, maxActiveDials = 10,
      netRestrict = Some (\<lambda>ip. ip = Some [10, 0, 0, 1]),
      resolver = None,
      dialer = (\<lambda>t n. Inl (externalError ''connection refused'')),
      clock = (\<lambda>t. 1 + int t)\<rparr>"

definition example_sched :: dialScheduler where
  "example_sched =
     \<lparr>config = example_config,
      setupFunc = (\<lambda>t fd f n. None),
      dialing = {2}, peers = {3}, static = {}, dialPeers = 0,
      staticPool = \<lparr>heap = [], items = []\<rparr>,
      history = [4 \<mapsto> 100]\<rparr>"

definition example_node :: "nat \<Rightarrow> IP option \<Rightarrow> int \<Rightarrow> Node" where
  "example_node k ip port = \<lparr>node_ptr = k, node_ID = of_nat k, node_IP = ip, node_TCP = port\<rparr>"

definition example_ops :: "poolOp list" where
  "example_ops =
     [OpAdd (example_node 7 (Some [10, 0, 0, 7]) 30303) False normalPriority 1,
      OpAdd (example_node 8 None 0) True staticPriority 2,
      OpAdd (example_node 9 (Some [10, 0, 0, 9]) 30303) False normalPriority 3]"

definition example_world :: world where
  "example_world = \<lparr>ticks = 0, time_Now = (\<lambda>t. 1000 + int t), trace = []\<rparr>"

definition example_resolver :: "nat \<Rightarrow> Node \<Rightarrow> Node option" where
  "example_resolver k n =
     (if k < 4 then None else Some (n\<lparr>node_IP := Some [10, 0, 0, 8], node_TCP := 30303\<rparr>))"

definition example_resolving_sched :: dialScheduler where
  "example_resolving_sched =
     example_sched\<lparr>config := example_config\<lparr>resolver := Some example_resolver,
        clock := (\<lambda>k. (1 + int k) * (100 * Second))\<rparr>\<rparr>"

definition example_task :: "int \<Rightarrow> int \<Rightarrow> dialTask" where
  "example_task lr rd =
     \<lparr>flags = {staticDialedConn}, dest = example_node 8 None 0,
      lastResolved = lr, resolveDelay = rd\<rparr>"

definition example_static_task :: dialTask where
  "example_static_task = newDialTask (example_node 7 (Some [10, 0, 0, 7]) 30303) {staticDialedConn}"

definition example_dynamic_task :: dialTask where
  "example_dynamic_task = newDialTask (example_node 7 (Some [10, 0, 0, 7]) 30303) {dynDialedConn}"

definition example_static_sched :: dialScheduler where
  "example_static_sched =
     example_sched\<lparr>config := example_config\<lparr>netRestrict := None\<rparr>, static := {8}\<rparr>"

definition example_admitting_sched :: dialScheduler where
  "example_admitting_sched =
     example_sched\<lparr>config := example_config\<lparr>netRestrict := None\<rparr>, static := {8},
       staticPool := run_ops example_ops\<rparr>"

definition example_zero_clock_sched :: dialScheduler where
  "example_zero_clock_sched =
     example_sched\<lparr>config := example_config\<lparr>resolver := Some example_resolver,
        clock := (\<lambda>k. (int k - 1) * Second)\<rparr>\<rparr>"

definition example_tie_ops :: "poolOp list" where
  "example_tie_ops =
     [OpAdd (example_node 1 (Some [10, 0, 0, 1]) 30303) False normalPriority 5,
      OpAdd (example_node 2 (Some [10, 0, 0, 2]) 30303) False normalPriority 5,
      OpAdd (example_node 3 (Some [10, 0, 0, 3]) 30303) False normalPriority 5]"

section \<open>Properties\<close>

subsection \<open>Arithmetic in the 64-bit range\<close>

lemma wrap64_id: "int64 x \<Longrightarrow> wrap64 x = x"
  by (simp add: wrap64_def int64_def)

lemma int64_wrap64: "int64 (wrap64 x)"
proof -
  have "0 \<le> (x + 2 ^ 63) mod (2 ^ 64 :: int)" by simp
  moreover have "(x + 2 ^ 63) mod (2 ^ 64 :: int) < 2 ^ 64" by simp
  ultimately show ?thesis by (simp add: wrap64_def int64_def)
qed

lemma wrap64_sub_id:
  "- (2 ^ 62) \<le> m \<Longrightarrow> m < 2 ^ 63 \<Longrightarrow> 0 \<le> c \<Longrightarrow> c < 2 ^ 62 \<Longrightarrow> wrap64 (m - c) = m - c"
  by (rule wrap64_id) (simp add: int64_def)

subsection \<open>Enqueue\<close>

text \<open>
  C10. For every scheduler and every heap node, \<open>Enqueue\<close> panics: its value is the
  panic, and it is never a normal return.
\<close>

theorem Enqueue_panics:
  "Enqueue d h = Inl (Panic ''x'') \<and> (\<forall>u. Enqueue d h \<noteq> Inr u)"
  by (simp add: Enqueue_def)

subsection \<open>freeDialSlots\<close>

text \<open>
  C2. \<open>freeDialSlots\<close> is the smaller of \<open>maxActiveDials\<close> and twice the number of
  peers still wanted, minus the number of dials in flight: always so in Go's 64-bit
  arithmetic, and as a formula over the integers when the counts are far from the ends
  of the 64-bit range. With \<open>maxDialPeers = 3\<close> and \<open>maxActiveDials = 10\<close> it is 6
  when nothing is dialed or in flight, and at most 0 when 3 peers are dialed.
\<close>

theorem freeDialSlots_formula:
  "freeDialSlots d =
     wrap64 (min (maxActiveDials (config d))
                 (wrap64 (wrap64 (maxDialPeers (config d) - dialPeers d) * 2))
             - len_set (dialing d))
   \<and> (- (2 ^ 62) \<le> maxActiveDials (config d) \<and> maxActiveDials (config d) < 2 ^ 63
        \<and> \<bar>maxDialPeers (config d)\<bar> < 2 ^ 60 \<and> \<bar>dialPeers d\<bar> < 2 ^ 60
        \<and> card (dialing d) < 2 ^ 62
      \<longrightarrow> freeDialSlots d =
            min (maxActiveDials (config d)) ((maxDialPeers (config d) - dialPeers d) * 2)
            - int (card (dialing d)))
   \<and> (maxDialPeers (config d) = 3 \<and> maxActiveDials (config d) = 10
        \<and> dialPeers d = 0 \<and> dialing d = {}
      \<longrightarrow> freeDialSlots d = 6)
   \<and> (maxDialPeers (config d) = 3 \<and> maxActiveDials (config d) = 10
        \<and> dialPeers d = 3 \<and> card (dialing d) < 2 ^ 63
      \<longrightarrow> freeDialSlots d \<le> 0)"
proof (intro conjI impI)
  show "freeDialSlots d =
     wrap64 (min (maxActiveDials (config d))
                 (wrap64 (wrap64 (maxDialPeers (config d) - dialPeers d) * 2))
             - len_set (dialing d))"
    by (simp add: freeDialSlots_def Let_def min_def)
next
  have F: "freeDialSlots d =
     wrap64 (min (maxActiveDials (config d))
                 (wrap64 (wrap64 (maxDialPeers (config d) - dialPeers d) * 2))
             - len_set (dialing d))"
    by (simp add: freeDialSlots_def Let_def min_def)
  assume h: "- (2 ^ 62) \<le> maxActiveDials (config d) \<and> maxActiveDials (config d) < 2 ^ 63
        \<and> \<bar>maxDialPeers (config d)\<bar> < 2 ^ 60 \<and> \<bar>dialPeers d\<bar> < 2 ^ 60
        \<and> card (dialing d) < 2 ^ 62"
  let ?a = "maxDialPeers (config d) - dialPeers d"
  have r: "- (2 ^ 61) < ?a \<and> ?a < 2 ^ 61"
    using h by (simp add: abs_less_iff)
  have a: "wrap64 ?a = ?a"
    using r by (intro wrap64_id) (simp add: int64_def)
  have b: "wrap64 (?a * 2) = ?a * 2"
    using r by (intro wrap64_id) (simp add: int64_def)
  let ?m = "min (maxActiveDials (config d)) (?a * 2)"
  have c: "int (card (dialing d)) < 2 ^ 62"
    using h by simp
  have m: "- (2 ^ 62) \<le> ?m \<and> ?m < 2 ^ 63"
    using h r by (simp add: min_def)
  have e: "wrap64 (?m - int (card (dialing d))) = ?m - int (card (dialing d))"
    using m c by (intro wrap64_sub_id) simp_all
  show "freeDialSlots d = ?m - int (card (dialing d))"
    by (simp only: F len_set_def a b e)
next
  assume "maxDialPeers (config d) = 3 \<and> maxActiveDials (config d) = 10
        \<and> dialPeers d = 0 \<and> dialing d = {}"
  then show "freeDialSlots d = 6"
    by (simp add: freeDialSlots_def Let_def len_set_def wrap64_def)
next
  assume h: "maxDialPeers (config d) = 3 \<and> maxActiveDials (config d) = 10
        \<and> dialPeers d = 3 \<and> card (dialing d) < 2 ^ 63"
  have "int (card (dialing d)) < 2 ^ 63"
    using h by simp
  then have "wrap64 (0 - int (card (dialing d))) = 0 - int (card (dialing d))"
    by (intro wrap64_id) (simp add: int64_def)
  then show "freeDialSlots d \<le> 0"
    using h by (simp add: freeDialSlots_def Let_def len_set_def wrap64_def)
qed

theorem freeDialSlots_formula_witness:
  "freeDialSlots (example_sched\<lparr>dialing := {}\<rparr>) = 6
   \<and> freeDialSlots example_sched = 5
   \<and> freeDialSlots (example_sched\<lparr>dialPeers := 3\<rparr>) = - 1
   \<and> freeDialSlots (example_sched\<lparr>dialPeers := 3\<rparr>) \<le> 0"
proof -
  have 1: "freeDialSlots (example_sched\<lparr>dialing := {}\<rparr>) = 6"
    using freeDialSlots_formula [of "example_sched\<lparr>dialing := {}\<rparr>"]
    by (simp add: example_sched_def example_config_def)
  have 2: "freeDialSlots example_sched = 5"
    using freeDialSlots_formula [of example_sched, THEN conjunct2, THEN conjunct1]
    by (simp add: example_sched_def example_config_def)
  have 3: "freeDialSlots (example_sched\<lparr>dialPeers := 3\<rparr>) = - 1"
    using freeDialSlots_formula [of "example_sched\<lparr>dialPeers := 3\<rparr>", THEN conjunct2, THEN conjunct1]
    by (simp add: example_sched_def example_config_def)
  have 4: "freeDialSlots (example_sched\<lparr>dialPeers := 3\<rparr>) \<le> 0"
    using freeDialSlots_formula [of "example_sched\<lparr>dialPeers := 3\<rparr>"]
    by (simp add: example_sched_def example_config_def)
  show ?thesis using 1 2 3 4 by simp
qed

subsection \<open>checkDial\<close>

text \<open>
  C1. \<open>checkDial\<close> tests its six conditions in the order self, no port, already
  dialing, already connected, net restriction, recently dialed; the first one that
  holds gives the error, and a node that meets none is admitted. A node without an IP
  is never rejected for its port.
\<close>

theorem checkDial_order:
  "(node_ID n = self (config d) \<longrightarrow> checkDial d n = Some errSelf)
   \<and> (node_ID n \<noteq> self (config d) \<and> node_IP n \<noteq> None \<and> node_TCP n = 0
      \<longrightarrow> checkDial d n = Some errNoPort)
   \<and> (node_ID n \<noteq> self (config d) \<and> \<not> (node_IP n \<noteq> None \<and> node_TCP n = 0)
        \<and> node_ID n \<in> dialing d
      \<longrightarrow> checkDial d n = Some errAlreadyDialing)
   \<and> (node_ID n \<noteq> self (config d) \<and> \<not> (node_IP n \<noteq> None \<and> node_TCP n = 0)
        \<and> node_ID n \<notin> dialing d \<and> node_ID n \<in> peers d
      \<longrightarrow> checkDial d n = Some errAlreadyConnected)
   \<and> (node_ID n \<noteq> self (config d) \<and> \<not> (node_IP n \<noteq> None \<and> node_TCP n = 0)
        \<and> node_ID n \<notin> dialing d \<and> node_ID n \<notin> peers d
        \<and> (\<exists>contains. netRestrict (config d) = Some contains \<and> \<not> contains (node_IP n))
      \<longrightarrow> checkDial d n = Some errNetRestrict)
   \<and> (node_ID n \<noteq> self (config d) \<and> \<not> (node_IP n \<noteq> None \<and> node_TCP n = 0)
        \<and> node_ID n \<notin> dialing d \<and> node_ID n \<notin> peers d
        \<and> \<not> (\<exists>contains. netRestrict (config d) = Some contains \<and> \<not> contains (node_IP n))
        \<and> history_ContainsID (history d) (node_ID n)
      \<longrightarrow> checkDial d n = Some errRecentlyDialed)
   \<and> (node_ID n \<noteq> self (config d) \<and> \<not> (node_IP n \<noteq> None \<and> node_TCP n = 0)
        \<and> node_ID n \<notin> dialing d \<and> node_ID n \<notin> peers d
        \<and> \<not> (\<exists>contains. netRestrict (config d) = Some contains \<and> \<not> contains (node_IP n))
        \<and> \<not> history_ContainsID (history d) (node_ID n)
      \<longrightarrow> checkDial d n = None)
   \<and> (node_IP n = None \<longrightarrow> checkDial d n \<noteq> Some errNoPort)"
  by (cases "netRestrict (config d)") (simp_all add: checkDial_def)

theorem checkDial_order_witness:
  "checkDial example_sched (example_node 1 (Some [10, 0, 0, 1]) 30303) = Some errSelf
   \<and> checkDial example_sched (example_node 2 (Some [10, 0, 0, 1]) 0) = Some errNoPort
   \<and> checkDial example_sched (example_node 2 (Some [10, 0, 0, 1]) 30303) = Some errAlreadyDialing
   \<and> checkDial example_sched (example_node 3 (Some [10, 0, 0, 1]) 30303) = Some errAlreadyConnected
   \<and> checkDial example_sched (example_node 4 (Some [10, 0, 0, 2]) 30303) = Some errNetRestrict
   \<and> checkDial example_sched (example_node 4 (Some [10, 0, 0, 1]) 30303) = Some errRecentlyDialed
   \<and> checkDial example_sched (example_node 5 (Some [10, 0, 0, 1]) 30303) = None
   \<and> checkDial example_sched (example_node 5 None 0) \<noteq> Some errNoPort"
proof -
  note defs = example_sched_def example_config_def example_node_def history_ContainsID_def
  have 1: "checkDial example_sched (example_node 1 (Some [10, 0, 0, 1]) 30303) = Some errSelf"
    using checkDial_order [of "example_node 1 (Some [10, 0, 0, 1]) 30303" example_sched]
    by (simp add: defs)
  have 2: "checkDial example_sched (example_node 2 (Some [10, 0, 0, 1]) 0) = Some errNoPort"
    using checkDial_order [of "example_node 2 (Some [10, 0, 0, 1]) 0" example_sched]
    by (simp add: defs)
  have 3: "checkDial example_sched (example_node 2 (Some [10, 0, 0, 1]) 30303) = Some errAlreadyDialing"
    using checkDial_order [of "example_node 2 (Some [10, 0, 0, 1]) 30303" example_sched]
    by (simp add: defs)
  have 4: "checkDial example_sched (example_node 3 (Some [10, 0, 0, 1]) 30303) = Some errAlreadyConnected"
    using checkDial_order [of "example_node 3 (Some [10, 0, 0, 1]) 30303" example_sched]
    by (simp add: defs)
  have 5: "checkDial example_sched (example_node 4 (Some [10, 0, 0, 2]) 30303) = Some errNetRestrict"
    using checkDial_order [of "example_node 4 (Some [10, 0, 0, 2]) 30303" example_sched]
    by (simp add: defs)
  have 6: "checkDial example_sched (example_node 4 (Some [10, 0, 0, 1]) 30303) = Some errRecentlyDialed"
    using checkDial_order [of "example_node 4 (Some [10, 0, 0, 1]) 30303" example_sched]
    by (simp add: defs)
  have 7: "checkDial example_sched (example_node 5 (Some [10, 0, 0, 1]) 30303) = None"
    using checkDial_order [of "example_node 5 (Some [10, 0, 0, 1]) 30303" example_sched]
    by (simp add: defs)
  have 8: "checkDial example_sched (example_node 5 None 0) \<noteq> Some errNoPort"
    using checkDial_order [of "example_node 5 None 0" example_sched]
    by (simp add: defs)
  show ?thesis using 1 2 3 4 5 6 7 8 by simp
qed

subsection \<open>The order of the pool\<close>

lemma Less_lessTask: "Less t i j = lessTask (t ! i) (t ! j)"
  by (simp add: Less_def lessTask_def)

lemma lessTask_index [simp]:
  "lessTask (a\<lparr>index := x\<rparr>) b = lessTask a b"
  "lessTask a (b\<lparr>index := x\<rparr>) = lessTask a b"
  by (simp_all add: lessTask_def)

lemma leTask_index [simp]:
  "leTask (a\<lparr>index := x\<rparr>) b = leTask a b"
  "leTask a (b\<lparr>index := x\<rparr>) = leTask a b"
  by (simp_all add: leTask_def)

lemma content_index [simp]: "content (a\<lparr>index := x\<rparr>) = content a"
  by (simp add: content_def)

lemma leTask_iff:
  "leTask a b = (priority a < priority b \<or> (priority a = priority b \<and> insertTime a \<le> insertTime b))"
  by (auto simp: leTask_def lessTask_def split: if_splits)

lemma leTask_refl [simp]: "leTask a a"
  by (simp add: leTask_iff)

lemma leTask_trans: "leTask a b \<Longrightarrow> leTask b c \<Longrightarrow> leTask a c"
  by (auto simp: leTask_iff)

lemma lessTask_imp_le: "lessTask a b \<Longrightarrow> leTask a b"
  by (auto simp: leTask_iff lessTask_def split: if_splits)

subsection \<open>Swap, up and down keep the entries\<close>

lemma Swap_nth:
  "i < length t \<Longrightarrow> j < length t \<Longrightarrow> k < length t \<Longrightarrow>
   Swap t i j ! k =
     (if k = j then (t ! i)\<lparr>index := int j\<rparr>
      else if k = i then (t ! j)\<lparr>index := int i\<rparr>
      else t ! k)"
  by (auto simp: Swap_def Let_def nth_list_update)

lemma Swap_nth_neq: "k \<noteq> i \<Longrightarrow> k \<noteq> j \<Longrightarrow> Swap t i j ! k = t ! k"
  by (simp add: Swap_def Let_def)

lemma entries_Swap:
  assumes "i < length t" "j < length t"
  shows "entries (Swap t i j) = entries t"
proof -
  let ?c = "map content t"
  have "map content (Swap t i j) = ?c[i := ?c ! j, j := ?c ! i]"
    using assms by (intro nth_equalityI) (auto simp: Swap_nth nth_list_update)
  moreover have "mset (?c[i := ?c ! j, j := ?c ! i]) = mset ?c"
    by (rule mset_swap) (simp_all add: assms)
  ultimately show ?thesis
    by (simp only: entries_def)
qed

lemma entries_up: "j < length h \<Longrightarrow> entries (up h j) = entries h"
proof (induction h j rule: up.induct)
  case (1 h j)
  have p: "(j - 1) div 2 < length h" using "1.prems" by simp
  show ?case
    using 1 p by (subst up.simps) (simp add: Let_def entries_Swap)
qed

lemma entries_down:
  "n \<le> length h \<Longrightarrow> i < n \<Longrightarrow> entries (down h i n) = entries h"
proof (induction h i n rule: down.induct)
  case (1 h i n)
  show ?case
    using 1 by (subst down.simps) (auto simp: Let_def entries_Swap)
qed

lemma down_nth_above:
  "n \<le> length h \<Longrightarrow> n \<le> k \<Longrightarrow> i < n \<Longrightarrow> down h i n ! k = h ! k"
proof (induction h i n rule: down.induct)
  case (1 h i n)
  show ?case
    using 1 by (subst down.simps) (auto simp: Let_def Swap_nth_neq)
qed

subsection \<open>up and down restore the heap order\<close>

lemma parent_less: "0 < (k::nat) \<Longrightarrow> (k - 1) div 2 < k"
  by arith

lemma parent_eq_iff: "0 < (k::nat) \<Longrightarrow> ((k - 1) div 2 = i) = (k = 2 * i + 1 \<or> k = 2 * i + 2)"
  by arith

lemma heap_ok_root:
  assumes "heap_ok h n"
  shows "k < n \<Longrightarrow> leTask (h ! 0) (h ! k)"
proof (induction k rule: less_induct)
  case (less k)
  show ?case
  proof (cases "k = 0")
    case True
    then show ?thesis by simp
  next
    case False
    then have k: "0 < k" by simp
    have p: "(k - 1) div 2 < k" using k by (rule parent_less)
    have "leTask (h ! 0) (h ! ((k - 1) div 2))"
      using less.IH [OF p] p less.prems by simp
    moreover have "leTask (h ! ((k - 1) div 2)) (h ! k)"
      using assms k less.prems by (simp add: heap_ok_def)
    ultimately show ?thesis by (rule leTask_trans)
  qed
qed

lemma heap_ok_min:
  assumes "heap_ok h (length h)" "x \<in> set h"
  shows "leTask (h ! 0) x"
proof -
  obtain k where "k < length h" "x = h ! k"
    using assms(2) by (auto simp: in_set_conv_nth)
  then show ?thesis using heap_ok_root [OF assms(1)] by simp
qed

lemma up_heap_ok:
  "n \<le> length h \<Longrightarrow> j < n \<Longrightarrow> heap_except_up h n j \<Longrightarrow> heap_ok (up h j) n"
proof (induction h j rule: up.induct)
  case (1 h j)
  define i where "i = (j - 1) div 2"
  have unfold: "up h j = (if i = j \<or> \<not> Less h j i then h else up (Swap h i j) i)"
    by (subst up.simps) (simp add: Let_def i_def)
  show ?case
  proof (cases "i = j \<or> \<not> Less h j i")
    case True
    have "heap_ok h n"
      unfolding heap_ok_def
    proof (intro allI impI)
      fix k assume k: "0 < k \<and> k < n"
      show "leTask (h ! ((k - 1) div 2)) (h ! k)"
      proof (cases "k = j")
        case False
        then show ?thesis using "1.prems"(3) k by (simp add: heap_except_up_def)
      next
        case kj: True
        then have "i \<noteq> j" using k parent_less [of j] by (simp add: i_def)
        then have "\<not> Less h j i" using True by simp
        then show ?thesis using kj by (simp add: Less_lessTask leTask_def i_def)
      qed
    qed
    then show ?thesis
      using True unfold by simp
  next
    case False
    then have ij: "i \<noteq> j" and lt: "lessTask (h ! j) (h ! i)"
      by (simp_all add: Less_lessTask)
    have j0: "0 < j" using ij by (cases j) (simp_all add: i_def)
    have i_lt: "i < j" using parent_less [OF j0] by (simp add: i_def)
    have jl: "j < length h" and il: "i < length h" and i_n: "i < n"
      using "1.prems" i_lt by simp_all
    define h' where "h' = Swap h i j"
    have nth: "\<And>k. k < n \<Longrightarrow> h' ! k =
        (if k = j then (h ! i)\<lparr>index := int j\<rparr>
         else if k = i then (h ! j)\<lparr>index := int i\<rparr> else h ! k)"
      unfolding h'_def using "1.prems"(1) jl il by (intro Swap_nth) simp_all
    have old1: "\<And>k. 0 < k \<Longrightarrow> k < n \<Longrightarrow> k \<noteq> j \<Longrightarrow> leTask (h ! ((k - 1) div 2)) (h ! k)"
      using "1.prems"(3) by (simp add: heap_except_up_def)
    have old2: "\<And>k. 0 < k \<Longrightarrow> k < n \<Longrightarrow> (k - 1) div 2 = j \<Longrightarrow> leTask (h ! i) (h ! k)"
      using "1.prems"(3) j0 by (simp add: heap_except_up_def i_def)
    have ex: "heap_except_up h' n i"
      unfolding heap_except_up_def
    proof (intro conjI allI impI)
      fix k assume k: "0 < k \<and> k < n \<and> k \<noteq> i"
      define p where "p = (k - 1) div 2"
      have pk: "p < k" using k parent_less [of k] by (simp add: p_def)
      then have pn: "p < n" using k by simp
      have "leTask (h' ! p) (h' ! k)"
      proof (cases "k = j")
        case True
        then have "p = i" by (simp add: p_def i_def)
        then show ?thesis using True k pn lt ij by (simp add: nth lessTask_imp_le)
      next
        case kj: False
        show ?thesis
        proof (cases "p = j")
          case True
          then show ?thesis using k kj pn ij old2 [of k] by (simp add: nth p_def)
        next
          case pj: False
          show ?thesis
          proof (cases "p = i")
            case True
            have "leTask (h ! i) (h ! k)" using old1 [of k] k kj True by (simp add: p_def)
            then have "leTask (h ! j) (h ! k)"
              using lessTask_imp_le [OF lt] leTask_trans by blast
            then show ?thesis using k kj pn pj True by (simp add: nth)
          next
            case False
            then show ?thesis using k kj pn pj old1 [of k] by (simp add: nth p_def)
          qed
        qed
      qed
      then show "leTask (h' ! ((k - 1) div 2)) (h' ! k)" by (simp add: p_def)
    next
      fix k assume k: "0 < k \<and> k < n \<and> (k - 1) div 2 = i \<and> 0 < i"
      define g where "g = (i - 1) div 2"
      have g: "g < i" using k parent_less [of i] by (simp add: g_def)
      then have gn: "g < n" and gj: "g \<noteq> j" and gi: "g \<noteq> i" using i_n i_lt by simp_all
      have gi_le: "leTask (h ! g) (h ! i)"
        using old1 [of i] k i_n ij by (simp add: g_def)
      have ki: "k \<noteq> i" using k parent_less [of k] by auto
      have "leTask (h' ! g) (h' ! k)"
      proof (cases "k = j")
        case True
        then show ?thesis using k gn gj gi gi_le by (simp add: nth)
      next
        case False
        have "leTask (h ! i) (h ! k)" using old1 [of k] k False by simp
        then have "leTask (h ! g) (h ! k)" using gi_le leTask_trans by blast
        then show ?thesis using k gn gj gi ki False by (simp add: nth)
      qed
      then show "leTask (h' ! ((i - 1) div 2)) (h' ! k)" by (simp add: g_def)
    qed
    have "heap_ok (up h' i) n"
      unfolding h'_def
    proof (rule "1.IH")
      show "i = (j - 1) div 2" by (simp add: i_def)
      show "\<not> (i = j \<or> \<not> Less h j i)" using False .
      show "n \<le> length (Swap h i j)" using "1.prems"(1) by simp
      show "i < n" by (rule i_n)
      show "heap_except_up (Swap h i j) n i" using ex by (simp add: h'_def)
    qed
    then show ?thesis
      using False unfold by (simp add: h'_def)
  qed
qed

lemma down_heap_ok:
  "n \<le> length h \<Longrightarrow> i < n \<Longrightarrow> heap_except_down h n i \<Longrightarrow> heap_ok (down h i n) n"
proof (induction h i n rule: down.induct)
  case (1 h i n)
  define j1 where "j1 = 2 * i + 1"
  define j where "j = (if j1 + 1 < n \<and> Less h (j1 + 1) j1 then j1 + 1 else j1)"
  have unfold: "down h i n =
      (if j1 \<ge> n then h else if \<not> Less h j i then h else down (Swap h i j) j n)"
    by (subst down.simps) (simp add: Let_def j1_def j_def)
  have old1: "\<And>k. 0 < k \<Longrightarrow> k < n \<Longrightarrow> (k - 1) div 2 \<noteq> i \<Longrightarrow> leTask (h ! ((k - 1) div 2)) (h ! k)"
    using "1.prems"(3) by (simp add: heap_except_down_def)
  have old2: "\<And>k. 0 < k \<Longrightarrow> k < n \<Longrightarrow> (k - 1) div 2 = i \<Longrightarrow> 0 < i
      \<Longrightarrow> leTask (h ! ((i - 1) div 2)) (h ! k)"
    using "1.prems"(3) by (simp add: heap_except_down_def)
  have child: "\<And>k. 0 < k \<Longrightarrow> ((k - 1) div 2 = i) = (k = j1 \<or> k = j1 + 1)"
    using parent_eq_iff [of _ i] by (simp add: j1_def)
  show ?case
  proof (cases "j1 \<ge> n")
    case True
    have "heap_ok h n"
      unfolding heap_ok_def
    proof (intro allI impI)
      fix k assume k: "0 < k \<and> k < n"
      then have "(k - 1) div 2 \<noteq> i" using child [of k] True by auto
      then show "leTask (h ! ((k - 1) div 2)) (h ! k)" using old1 k by simp
    qed
    then show ?thesis using True unfold by simp
  next
    case False
    then have j1n: "j1 < n" by simp
    have jn: "j < n" using j1n by (simp add: j_def)
    have ij: "i < j" by (simp add: j_def j1_def)
    have j0: "0 < j" using ij by simp
    have pj: "(j - 1) div 2 = i" using child [OF j0] by (simp add: j_def)
    have minc: "leTask (h ! j) (h ! k)" if "0 < k" "k < n" "(k - 1) div 2 = i" for k
    proof -
      have kk: "k = j1 \<or> k = j1 + 1" using that child [of k] by simp
      show ?thesis
      proof (cases "j1 + 1 < n \<and> Less h (j1 + 1) j1")
        case True
        then have "j = j1 + 1" by (simp add: j_def)
        moreover have "leTask (h ! (j1 + 1)) (h ! j1)"
          using True by (simp add: Less_lessTask lessTask_imp_le)
        ultimately show ?thesis using kk by auto
      next
        case False
        then have jj: "j = j1" by (simp add: j_def)
        show ?thesis
        proof (cases "k = j1")
          case True
          then show ?thesis using jj by simp
        next
          case kf: False
          then have k1: "k = j1 + 1" using kk by simp
          then have "\<not> Less h (j1 + 1) j1" using False that by simp
          then show ?thesis using jj k1 by (simp add: Less_lessTask leTask_def)
        qed
      qed
    qed
    show ?thesis
    proof (cases "Less h j i")
      case nl: False
      then have ij_le: "leTask (h ! i) (h ! j)"
        by (simp add: Less_lessTask leTask_def)
      have "heap_ok h n"
        unfolding heap_ok_def
      proof (intro allI impI)
        fix k assume k: "0 < k \<and> k < n"
        show "leTask (h ! ((k - 1) div 2)) (h ! k)"
        proof (cases "(k - 1) div 2 = i")
          case True
          then have "leTask (h ! j) (h ! k)" using minc k by simp
          then have "leTask (h ! i) (h ! k)" using ij_le leTask_trans by blast
          then show ?thesis using True by simp
        next
          case False
          then show ?thesis using old1 k by simp
        qed
      qed
      then show ?thesis using False nl unfold by simp
    next
      case lt: True
      then have ltT: "lessTask (h ! j) (h ! i)" by (simp add: Less_lessTask)
      define h' where "h' = Swap h i j"
      have nth: "\<And>k. k < n \<Longrightarrow> h' ! k =
          (if k = j then (h ! i)\<lparr>index := int j\<rparr>
           else if k = i then (h ! j)\<lparr>index := int i\<rparr> else h ! k)"
        unfolding h'_def using "1.prems" jn by (intro Swap_nth) simp_all
      have ex: "heap_except_down h' n j"
        unfolding heap_except_down_def
      proof (intro conjI allI impI)
        fix k assume k: "0 < k \<and> k < n \<and> (k - 1) div 2 \<noteq> j"
        define p where "p = (k - 1) div 2"
        have pk: "p < k" using k parent_less [of k] by (simp add: p_def)
        then have pn: "p < n" using k by simp
        have pj': "p \<noteq> j" using k by (simp add: p_def)
        have "leTask (h' ! p) (h' ! k)"
        proof (cases "k = j")
          case True
          then have "p = i" using pj by (simp add: p_def)
          then show ?thesis using True k pn ltT ij by (simp add: nth lessTask_imp_le)
        next
          case kj: False
          show ?thesis
          proof (cases "k = i")
            case True
            then have i0: "0 < i" using k by simp
            have pi: "p \<noteq> i" using pk True by simp
            have "leTask (h ! p) (h ! j)"
              using old2 [of j] j0 jn pj i0 True by (simp add: p_def)
            then show ?thesis using True k kj pn pj' pi by (simp add: nth)
          next
            case ki: False
            show ?thesis
            proof (cases "p = i")
              case True
              then have "leTask (h ! j) (h ! k)" using minc [of k] k by (simp add: p_def)
              then show ?thesis using True k kj ki pn pj' by (simp add: nth)
            next
              case False
              then show ?thesis using k kj ki pn pj' old1 [of k] by (simp add: nth p_def)
            qed
          qed
        qed
        then show "leTask (h' ! ((k - 1) div 2)) (h' ! k)" by (simp add: p_def)
      next
        fix k assume k: "0 < k \<and> k < n \<and> (k - 1) div 2 = j \<and> 0 < j"
        have kj: "j < k" using k parent_less [of k] by auto
        then have kne: "k \<noteq> j" "k \<noteq> i" using ij by simp_all
        have "(k - 1) div 2 \<noteq> i" using k ij by simp
        then have "leTask (h ! j) (h ! k)" using old1 [of k] k by simp
        then have "leTask (h' ! i) (h' ! k)"
          using k kne ij "1.prems"(2) by (simp add: nth)
        then show "leTask (h' ! ((j - 1) div 2)) (h' ! k)" by (simp only: pj)
      qed
      have "heap_ok (down h' j n) n"
        unfolding h'_def
      proof (rule "1.IH")
        show "j1 = 2 * i + 1" by (simp add: j1_def)
        show "\<not> n \<le> j1" using j1n by simp
        show "j = (if j1 + 1 < n \<and> Less h (j1 + 1) j1 then j1 + 1 else j1)" by (simp add: j_def)
        show "\<not> \<not> Less h j i" using lt by simp
        show "n \<le> length (Swap h i j)" using "1.prems"(1) by simp
        show "j < n" by (rule jn)
        show "heap_except_down (Swap h i j) n j" using ex by (simp add: h'_def)
      qed
      then show ?thesis using False lt unfold by (simp add: h'_def)
    qed
  qed
qed

subsection \<open>heap.Push and heap.Pop\<close>

lemma mset_addr_entries: "image_mset addr (mset h) = image_mset fst (entries h)"
  by (simp add: entries_def content_def multiset.map_comp comp_def)

lemma length_heap_Push [simp]: "length (heap_Push h x) = Suc (length h)"
  by (simp add: heap_Push_def Push_def Let_def)

lemma entries_heap_Push: "entries (heap_Push h x) = entries h + {#content x#}"
proof -
  have "entries (heap_Push h x) = entries (Push h x)"
    by (simp add: heap_Push_def Let_def entries_up Push_def)
  then show ?thesis
    by (simp add: Push_def Let_def entries_def)
qed

lemma heap_ok_heap_Push:
  assumes "heap_ok h (length h)"
  shows "heap_ok (heap_Push h x) (Suc (length h))"
proof -
  define h1 where "h1 = Push h x"
  have len: "length h1 = Suc (length h)" by (simp add: h1_def Push_def Let_def)
  have nth: "\<And>k. k < length h \<Longrightarrow> h1 ! k = h ! k"
    by (simp add: h1_def Push_def Let_def nth_append)
  have "heap_except_up h1 (Suc (length h)) (length h)"
    unfolding heap_except_up_def
  proof (intro conjI allI impI)
    fix k assume k: "0 < k \<and> k < Suc (length h) \<and> k \<noteq> length h"
    then have kl: "k < length h" by simp
    then have "(k - 1) div 2 < length h" using parent_less [of k] k by simp
    then show "leTask (h1 ! ((k - 1) div 2)) (h1 ! k)"
      using assms k kl by (simp add: nth heap_ok_def)
  next
    fix k assume k: "0 < k \<and> k < Suc (length h) \<and> (k - 1) div 2 = length h \<and> 0 < length h"
    then have "k = 2 * length h + 1 \<or> k = 2 * length h + 2"
      using parent_eq_iff [of k "length h"] by simp
    then have False using k by auto
    then show "leTask (h1 ! ((length h - 1) div 2)) (h1 ! k)" ..
  qed
  then have "heap_ok (up h1 (length h)) (Suc (length h))"
    by (intro up_heap_ok) (simp_all add: len)
  then show ?thesis
    by (simp add: heap_Push_def Let_def h1_def [symmetric] len)
qed

lemma heap_Pop_result:
  assumes ne: "h \<noteq> []" and ok: "heap_ok h (length h)"
  shows "fst (heap_Pop h) = (h ! 0)\<lparr>index := - 1\<rparr>
    \<and> length (snd (heap_Pop h)) = length h - 1
    \<and> heap_ok (snd (heap_Pop h)) (length h - 1)
    \<and> entries h = entries (snd (heap_Pop h)) + {#content (h ! 0)#}"
proof -
  define n where "n = length h - 1"
  define h1 where "h1 = Swap h 0 n"
  define h2 where "h2 = down h1 0 n"
  have nl: "n < length h" using ne by (simp add: n_def)
  have len1: "length h1 = length h" by (simp add: h1_def)
  have len2: "length h2 = length h" by (simp add: h2_def len1)
  have pop: "heap_Pop h = ((h2 ! n)\<lparr>index := - 1\<rparr>, take n h2)"
    by (simp add: heap_Pop_def Pop_def Let_def h2_def h1_def n_def)
  have nth1: "\<And>k. k < length h \<Longrightarrow> h1 ! k =
      (if k = n then (h ! 0)\<lparr>index := int n\<rparr>
       else if k = 0 then (h ! n)\<lparr>index := int 0\<rparr> else h ! k)"
    unfolding h1_def using nl ne by (intro Swap_nth) simp_all
  have e1: "entries h1 = entries h"
    unfolding h1_def using nl ne by (intro entries_Swap) simp_all
  have last2: "h2 ! n = (h ! 0)\<lparr>index := int n\<rparr>"
  proof (cases "n = 0")
    case True
    then have "h2 = h1" by (simp add: h2_def down.simps)
    then show ?thesis using nth1 [of n] nl by simp
  next
    case False
    then have "h2 ! n = h1 ! n"
      unfolding h2_def using nl by (intro down_nth_above) (simp_all add: len1)
    then show ?thesis using nth1 [of n] nl by simp
  qed
  have e2: "entries h2 = entries h"
  proof (cases "n = 0")
    case True
    then have "h2 = h1" by (simp add: h2_def down.simps)
    then show ?thesis using e1 by simp
  next
    case False
    then have "entries h2 = entries h1"
      unfolding h2_def using nl by (intro entries_down) (simp_all add: len1)
    then show ?thesis using e1 by simp
  qed
  have ok2: "heap_ok h2 n"
  proof (cases "n = 0")
    case True
    then show ?thesis by (simp add: heap_ok_def)
  next
    case False
    have "heap_except_down h1 n 0"
      unfolding heap_except_down_def
    proof (intro conjI allI impI)
      fix k assume k: "0 < k \<and> k < n \<and> (k - 1) div 2 \<noteq> 0"
      define p where "p = (k - 1) div 2"
      have pk: "p < k" using k parent_less [of k] by (simp add: p_def)
      have "leTask (h ! p) (h ! k)" using ok k nl by (simp add: heap_ok_def p_def)
      moreover have "h1 ! k = h ! k" using nth1 [of k] k nl by simp
      moreover have "h1 ! p = h ! p" using nth1 [of p] pk k nl by (simp add: p_def)
      ultimately show "leTask (h1 ! ((k - 1) div 2)) (h1 ! k)" by (simp add: p_def)
    next
      fix k assume "0 < k \<and> k < n \<and> (k - 1) div 2 = 0 \<and> 0 < (0::nat)"
      then show "leTask (h1 ! ((0 - 1) div 2)) (h1 ! k)" by simp
    qed
    then show ?thesis
      unfolding h2_def using nl False by (intro down_heap_ok) (simp_all add: len1)
  qed
  have ok3: "heap_ok (take n h2) n"
    unfolding heap_ok_def
  proof (intro allI impI)
    fix k assume k: "0 < k \<and> k < n"
    then have "(k - 1) div 2 < n" using parent_less [of k] by simp
    then show "leTask (take n h2 ! ((k - 1) div 2)) (take n h2 ! k)"
      using ok2 k by (simp add: heap_ok_def)
  qed
  have "h2 = take n h2 @ [h2 ! n]"
    using nl len2 by (metis n_def ne Suc_diff_1 length_greater_0_conv take_Suc_conv_app_nth take_all order_refl)
  then have "entries h2 = entries (take n h2) + {#content (h2 ! n)#}"
    by (metis entries_def map_append mset_append list.simps(8,9) mset.simps add_mset_add_single union_mset_add_mset_right image_mset_add_mset image_mset_empty mset_map)
  then have e3: "entries h = entries (take n h2) + {#content (h ! 0)#}"
    using e2 last2 by simp
  show ?thesis
    using pop last2 ok3 e3 nl len2 by (simp add: n_def)
qed

subsection \<open>The invariant of the pool\<close>

lemma pool_inv_new: "pool_inv newDialQueue"
  by (simp add: pool_inv_def newDialQueue_def heap_ok_def)

lemma addr_heap_Push:
  "mset (map addr (heap_Push h x)) = mset (map addr (x # h))"
  by (simp add: mset_addr_entries entries_heap_Push content_def)

lemma pool_inv_add:
  assumes "pool_inv d"
  shows "pool_inv (add d a s p now)"
proof (cases "map_of (items d) a \<noteq> None")
  case True
  then show ?thesis using assms by (simp add: add_def)
next
  case False
  define task where "task = \<lparr>index = 0, addr = a, insertTime = now, isStatic = s, priority = p\<rparr>"
  have eq: "add d a s p now =
      d\<lparr>items := AList.update a task (items d), heap := heap_Push (heap d) task\<rparr>"
    using False by (simp add: add_def task_def Let_def)
  have notin: "a \<notin> set (map fst (items d))"
    using False by (simp add: map_of_eq_None_iff)
  then have notin': "a \<notin> set (map addr (heap d))"
    using assms by (simp add: pool_inv_def)
  have m: "mset (map addr (heap_Push (heap d) task)) = mset (a # map addr (heap d))"
    using addr_heap_Push [of "heap d" task] by (simp add: task_def)
  have d1: "distinct (map addr (heap_Push (heap d) task))"
    using mset_eq_imp_distinct_iff [OF m] notin' assms by (simp add: pool_inv_def)
  have s1: "set (map addr (heap_Push (heap d) task)) = insert a (set (map addr (heap d)))"
    using mset_eq_setD [OF m] by simp
  have k: "map fst (AList.update a task (items d)) = map fst (items d) @ [a]"
    using notin by (simp add: update_keys)
  have h1: "heap_ok (heap_Push (heap d) task) (Suc (length (heap d)))"
    using assms by (intro heap_ok_heap_Push) (simp add: pool_inv_def)
  show ?thesis
    unfolding pool_inv_def eq
    using h1 d1 s1 k notin assms by (simp add: pool_inv_def)
qed

lemma pool_inv_pop:
  assumes "pool_inv d"
  shows "pool_inv (snd (popImpl d))"
proof (cases "heap d = []")
  case True
  then show ?thesis using assms by (simp add: popImpl_def)
next
  case False
  define e where "e = fst (heap_Pop (heap d))"
  define h' where "h' = snd (heap_Pop (heap d))"
  have ok: "heap_ok (heap d) (length (heap d))"
    using assms by (simp add: pool_inv_def)
  have r: "e = (heap d ! 0)\<lparr>index := - 1\<rparr>" "length h' = length (heap d) - 1"
      "heap_ok h' (length (heap d) - 1)" "entries (heap d) = entries h' + {#content (heap d ! 0)#}"
    using heap_Pop_result [OF False ok] by (simp_all add: e_def h'_def)
  have ae: "addr e = addr (heap d ! 0)" using r(1) by simp
  have eq: "snd (popImpl d) = d\<lparr>heap := h', items := AList.delete (addr e) (items d)\<rparr>"
    using False by (simp add: popImpl_def e_def h'_def split_def Let_def)
  have m: "mset (map addr (heap d)) = mset (addr e # map addr h')"
    using r(4) by (simp add: mset_addr_entries ae content_def)
  have d0: "distinct (addr e # map addr h')"
    using mset_eq_imp_distinct_iff [OF m] assms by (simp add: pool_inv_def)
  have s0: "set (map addr (heap d)) = insert (addr e) (set (map addr h'))"
    using mset_eq_setD [OF m] by simp
  have k: "set (map fst (AList.delete (addr e) (items d))) = set (map addr h')"
    using assms s0 d0 by (auto simp: delete_keys pool_inv_def)
  have dk: "distinct (map fst (AList.delete (addr e) (items d)))"
    using assms by (intro distinct_delete) (simp add: pool_inv_def)
  show ?thesis
    unfolding pool_inv_def eq
    using r(2,3) d0 k dk by simp
qed

lemma run_ops_snoc: "run_ops (ops @ [x]) = apply_op (run_ops ops) x"
  by (simp add: run_ops_def)

lemma pool_inv_run_ops: "pool_inv (run_ops ops)"
proof (induction ops rule: rev_induct)
  case Nil
  then show ?case by (simp add: run_ops_def pool_inv_new)
next
  case (snoc x xs)
  then show ?case
    by (cases x) (simp_all add: run_ops_snoc pool_inv_add pool_inv_pop)
qed

lemma pool_inv_Len:
  assumes "pool_inv d"
  shows "Len d = int (length (heap d))"
proof -
  have "length (items d) = card (set (map fst (items d)))"
    using assms by (metis pool_inv_def distinct_card length_map)
  also have "\<dots> = card (set (map addr (heap d)))"
    using assms by (simp add: pool_inv_def)
  also have "\<dots> = length (heap d)"
    using assms by (metis pool_inv_def distinct_card length_map)
  finally show ?thesis by (simp add: Len_def)
qed

subsection \<open>popImpl\<close>

text \<open>
  C4, as amended. In every state of the pool, \<open>popImpl\<close> on an empty pool returns
  nil and leaves the pool as it is; on a pool that is not empty it removes and returns
  one of its entries, and no entry of the pool has a smaller priority, or the same
  priority and an earlier insertion time. So while an entry of static priority is in
  the pool, the entry popped does not have the priority of a dynamic one, and among the
  entries of the popped entry's priority none has an insertion time before that of the
  popped one. Entries of the same priority and the same insertion time are not ordered.
\<close>

theorem popImpl_minimal:
  "(heap (run_ops ops) = [] \<longrightarrow> popImpl (run_ops ops) = (None, run_ops ops))
   \<and> (heap (run_ops ops) \<noteq> [] \<longrightarrow>
        (\<exists>e d'. popImpl (run_ops ops) = (Some e, d')
           \<and> content e \<in># entries (heap (run_ops ops))
           \<and> entries (heap d') = entries (heap (run_ops ops)) - {#content e#}
           \<and> (\<forall>x \<in> set (heap (run_ops ops)).
                 priority e \<le> priority x
                 \<and> (priority x = priority e \<longrightarrow> insertTime e \<le> insertTime x))
           \<and> ((\<exists>s \<in> set (heap (run_ops ops)). priority s = staticPriority)
                 \<longrightarrow> priority e \<noteq> normalPriority)))"
proof (intro conjI impI)
  assume "heap (run_ops ops) = []"
  then show "popImpl (run_ops ops) = (None, run_ops ops)"
    by (simp add: popImpl_def)
next
  define d where "d = run_ops ops"
  assume "heap (run_ops ops) \<noteq> []"
  then have ne: "heap d \<noteq> []" by (simp add: d_def)
  have inv: "pool_inv d" by (simp add: d_def pool_inv_run_ops)
  then have ok: "heap_ok (heap d) (length (heap d))" by (simp add: pool_inv_def)
  define e where "e = fst (heap_Pop (heap d))"
  define d' where "d' = snd (popImpl d)"
  have r: "e = (heap d ! 0)\<lparr>index := - 1\<rparr>"
      "entries (heap d) = entries (snd (heap_Pop (heap d))) + {#content (heap d ! 0)#}"
    using heap_Pop_result [OF ne ok] by (simp_all add: e_def)
  have pop: "popImpl d = (Some e, d')"
    using ne by (simp add: popImpl_def e_def d'_def split_def Let_def)
  have hd': "heap d' = snd (heap_Pop (heap d))"
    using ne by (simp add: popImpl_def d'_def split_def Let_def)
  have ce: "content e = content (heap d ! 0)" using r(1) by simp
  have c1: "content e \<in># entries (heap d)" using r(2) ce by simp
  have c2: "entries (heap d') = entries (heap d) - {#content e#}"
    using r(2) ce hd' by simp
  have c3: "\<forall>x \<in> set (heap d). priority e \<le> priority x
      \<and> (priority x = priority e \<longrightarrow> insertTime e \<le> insertTime x)"
  proof
    fix x assume "x \<in> set (heap d)"
    then have "leTask (heap d ! 0) x" using heap_ok_min [OF ok] by simp
    then show "priority e \<le> priority x \<and> (priority x = priority e \<longrightarrow> insertTime e \<le> insertTime x)"
      using r(1) by (auto simp: leTask_iff)
  qed
  have c4: "(\<exists>s \<in> set (heap d). priority s = staticPriority) \<longrightarrow> priority e \<noteq> normalPriority"
  proof
    assume "\<exists>s \<in> set (heap d). priority s = staticPriority"
    then obtain s where "s \<in> set (heap d)" "priority s = staticPriority" by blast
    then have "priority e \<le> staticPriority" using c3 by auto
    then show "priority e \<noteq> normalPriority"
      by (auto simp: staticPriority_def normalPriority_def)
  qed
  show "\<exists>e d'. popImpl (run_ops ops) = (Some e, d')
           \<and> content e \<in># entries (heap (run_ops ops))
           \<and> entries (heap d') = entries (heap (run_ops ops)) - {#content e#}
           \<and> (\<forall>x \<in> set (heap (run_ops ops)).
                 priority e \<le> priority x
                 \<and> (priority x = priority e \<longrightarrow> insertTime e \<le> insertTime x))
           \<and> ((\<exists>s \<in> set (heap (run_ops ops)). priority s = staticPriority)
                 \<longrightarrow> priority e \<noteq> normalPriority)"
    using pop c1 c2 c3 c4 unfolding d_def by blast
qed

theorem popImpl_minimal_witness:
  "heap (run_ops example_ops) \<noteq> []
   \<and> (\<exists>e d'. popImpl (run_ops example_ops) = (Some e, d')
         \<and> content e \<in># entries (heap (run_ops example_ops))
         \<and> priority e \<noteq> normalPriority)
   \<and> fst (popImpl (run_ops example_ops))
       = Some \<lparr>index = - 1, addr = example_node 8 None 0, insertTime = 2,
               isStatic = True, priority = staticPriority\<rparr>
   \<and> heap (run_ops []) = []
   \<and> popImpl (run_ops []) = (None, run_ops [])"
proof -
  have ne: "heap (run_ops example_ops) \<noteq> []"
    by code_simp
  have st: "\<exists>s \<in> set (heap (run_ops example_ops)). priority s = staticPriority"
    by code_simp
  have 1: "\<exists>e d'. popImpl (run_ops example_ops) = (Some e, d')
         \<and> content e \<in># entries (heap (run_ops example_ops))
         \<and> priority e \<noteq> normalPriority"
    using popImpl_minimal [of example_ops] ne st by blast
  have 2: "fst (popImpl (run_ops example_ops))
       = Some \<lparr>index = - 1, addr = example_node 8 None 0, insertTime = 2,
               isStatic = True, priority = staticPriority\<rparr>"
    by code_simp
  have e: "heap (run_ops []) = []"
    by code_simp
  have 3: "popImpl (run_ops []) = (None, run_ops [])"
    using popImpl_minimal [of "[]"] e by blast
  show ?thesis using ne 1 2 e 3 by blast
qed

text \<open>
  The claim as it was stated fails: three nodes are added in the order 1, 2, 3 with
  the same priority and the same reading of \<open>time.Now()\<close>, and they are popped in the
  order 1, 3, 2.
\<close>

theorem equal_time_not_fifo:
  "map_option (node_ptr \<circ> addr) (fst (popImpl (run_ops example_tie_ops))) = Some 1
   \<and> map_option (node_ptr \<circ> addr) (fst (popImpl (run_ops (example_tie_ops @ [OpPop])))) = Some 3
   \<and> map_option (node_ptr \<circ> addr)
        (fst (popImpl (run_ops (example_tie_ops @ [OpPop, OpPop])))) = Some 2"
  by code_simp

subsection \<open>add\<close>

text \<open>
  C8. In every state of the pool no node has two entries, and the size is the number
  of entries. \<open>add\<close> for a node that has an entry changes nothing; for any other node
  it adds exactly one entry, with the given flag and priority and the current time as
  insertion time.
\<close>

theorem add_once:
  "distinct (map addr (heap (run_ops ops)))
   \<and> Len (run_ops ops) = int (length (heap (run_ops ops)))
   \<and> (a \<in> addr ` set (heap (run_ops ops)) \<longrightarrow> add (run_ops ops) a s p now = run_ops ops)
   \<and> (a \<notin> addr ` set (heap (run_ops ops)) \<longrightarrow>
        entries (heap (add (run_ops ops) a s p now))
          = entries (heap (run_ops ops)) + {#(a, now, s, p)#}
        \<and> Len (add (run_ops ops) a s p now) = Len (run_ops ops) + 1)"
proof -
  define d where "d = run_ops ops"
  have inv: "pool_inv d" by (simp add: d_def pool_inv_run_ops)
  have keys: "set (map fst (items d)) = set (map addr (heap d))"
    using inv by (simp add: pool_inv_def)
  have 1: "distinct (map addr (heap d))" using inv by (simp add: pool_inv_def)
  have 2: "Len d = int (length (heap d))" using inv by (rule pool_inv_Len)
  have 3: "add d a s p now = d" if "a \<in> addr ` set (heap d)"
  proof -
    have "a \<in> fst ` set (items d)" using that keys by simp
    then have "map_of (items d) a \<noteq> None" by (simp add: map_of_eq_None_iff)
    then show ?thesis by (simp add: add_def)
  qed
  have 4: "entries (heap (add d a s p now)) = entries (heap d) + {#(a, now, s, p)#}
      \<and> Len (add d a s p now) = Len d + 1" if "a \<notin> addr ` set (heap d)"
  proof -
    have "a \<notin> fst ` set (items d)" using that keys by simp
    then have n: "map_of (items d) a = None" by (simp add: map_of_eq_None_iff)
    have "pool_inv (add d a s p now)" using inv by (rule pool_inv_add)
    then have "Len (add d a s p now) = int (length (heap (add d a s p now)))"
      by (rule pool_inv_Len)
    then have "Len (add d a s p now) = Len d + 1"
      using n 2 by (simp add: add_def Let_def)
    moreover have "entries (heap (add d a s p now)) = entries (heap d) + {#(a, now, s, p)#}"
      using n by (simp add: add_def Let_def entries_heap_Push content_def)
    ultimately show ?thesis by simp
  qed
  show ?thesis using 1 2 3 4 unfolding d_def by blast
qed

theorem add_once_witness:
  "example_node 8 None 0 \<in> addr ` set (heap (run_ops example_ops))
   \<and> add (run_ops example_ops) (example_node 8 None 0) True staticPriority 4 = run_ops example_ops
   \<and> example_node 6 None 0 \<notin> addr ` set (heap (run_ops example_ops))
   \<and> Len (run_ops example_ops) = 3
   \<and> Len (add (run_ops example_ops) (example_node 6 None 0) True staticPriority 4) = 4
   \<and> entries (heap (add (run_ops example_ops) (example_node 6 None 0) True staticPriority 4))
       = entries (heap (run_ops example_ops)) + {#(example_node 6 None 0, 4, True, staticPriority)#}"
proof -
  have a: "example_node 8 None 0 \<in> addr ` set (heap (run_ops example_ops))"
    by code_simp
  have b: "example_node 6 None 0 \<notin> addr ` set (heap (run_ops example_ops))"
    by code_simp
  have l: "Len (run_ops example_ops) = 3"
    by code_simp
  have 1: "add (run_ops example_ops) (example_node 8 None 0) True staticPriority 4 = run_ops example_ops"
    using add_once [of example_ops "example_node 8 None 0" True staticPriority 4] a by blast
  have 2: "entries (heap (add (run_ops example_ops) (example_node 6 None 0) True staticPriority 4))
       = entries (heap (run_ops example_ops)) + {#(example_node 6 None 0, 4, True, staticPriority)#}
     \<and> Len (add (run_ops example_ops) (example_node 6 None 0) True staticPriority 4)
       = Len (run_ops example_ops) + 1"
    using add_once [of example_ops "example_node 6 None 0" True staticPriority 4] b by blast
  show ?thesis using a b l 1 2 by simp
qed

subsection \<open>resolve\<close>

lemma resolve_no_resolver:
  "resolver (config d) = None \<Longrightarrow> resolve d t w = (False, t, emit (CallResolve (dest t)) w)"
  by (simp add: resolve_def Let_def)

lemma resolve_throttled:
  assumes "resolver (config d) = Some R" "throttled d t w"
  shows "resolve d t w =
    (False, t\<lparr>resolveDelay := effective_delay t\<rparr>, tick (emit (CallResolve (dest t)) w))"
  using assms
  by (auto simp: resolve_def Let_def throttled_def effective_delay_def emit_def tick_def)

lemma resolve_not_found:
  assumes "resolver (config d) = Some R" "\<not> throttled d t w"
    "R (resolver_tick t w) (dest t) = None"
  shows "fst (resolve d t w) = False"
    and "dest (fst (snd (resolve d t w))) = dest t"
    and "trace (snd (snd (resolve d t w))) = trace w @ [CallResolve (dest t), QueryResolver (dest t)]"
    and "resolveDelay (fst (snd (resolve d t w))) =
      (if wrap64 (effective_delay t * 2) > maxResolveDelay then maxResolveDelay
       else wrap64 (effective_delay t * 2))"
    and "lastResolved (fst (snd (resolve d t w))) = clock (config d) (Suc (resolver_tick t w))"
  using assms
  by (auto simp: resolve_def Let_def throttled_def effective_delay_def emit_def tick_def
      resolver_tick_def)

lemma resolve_found:
  assumes "resolver (config d) = Some R" "\<not> throttled d t w"
    "R (resolver_tick t w) (dest t) = Some n"
  shows "fst (resolve d t w) = True"
    and "dest (fst (snd (resolve d t w))) = n"
    and "trace (snd (snd (resolve d t w))) = trace w @ [CallResolve (dest t), QueryResolver (dest t)]"
    and "resolveDelay (fst (snd (resolve d t w))) = initialResolveDelay"
    and "lastResolved (fst (snd (resolve d t w))) = clock (config d) (Suc (resolver_tick t w))"
  using assms
  by (auto simp: resolve_def Let_def throttled_def effective_delay_def emit_def tick_def
      resolver_tick_def)

lemma doubled_delay:
  assumes "0 \<le> resolveDelay t" "resolveDelay t \<le> maxResolveDelay"
  shows "(if wrap64 (effective_delay t * 2) > maxResolveDelay then maxResolveDelay
       else wrap64 (effective_delay t * 2)) = min (2 * effective_delay t) maxResolveDelay"
proof -
  have "0 \<le> effective_delay t \<and> effective_delay t \<le> maxResolveDelay"
    using assms by (simp add: effective_delay_def initialResolveDelay_def maxResolveDelay_def Second_def)
  then have "int64 (effective_delay t * 2)"
    by (simp add: int64_def maxResolveDelay_def Second_def)
  then have "wrap64 (effective_delay t * 2) = effective_delay t * 2"
    by (rule wrap64_id)
  then show ?thesis by (simp add: min_def)
qed

lemma throttled_iff:
  assumes "0 < lastResolved t" "int64 (lastResolved t)"
    "0 \<le> clock (config d) (ticks w)" "int64 (clock (config d) (ticks w))"
  shows "throttled d t w = (clock (config d) (ticks w) - lastResolved t < effective_delay t)"
proof -
  have "int64 (clock (config d) (ticks w) - lastResolved t)"
    using assms by (simp add: int64_def)
  then have "wrap64 (clock (config d) (ticks w) - lastResolved t)
      = clock (config d) (ticks w) - lastResolved t"
    by (rule wrap64_id)
  then show ?thesis using assms(1) by (simp add: throttled_def)
qed

lemma resolve_delay_range:
  assumes "0 \<le> resolveDelay t" "resolveDelay t \<le> maxResolveDelay"
  shows "0 < resolveDelay (fst (snd (resolve d t w))) \<or> resolver (config d) = None"
    and "resolveDelay (fst (snd (resolve d t w))) \<le> maxResolveDelay"
proof -
  have e: "0 < effective_delay t \<and> effective_delay t \<le> maxResolveDelay"
    using assms by (simp add: effective_delay_def initialResolveDelay_def maxResolveDelay_def Second_def)
  have i: "0 < initialResolveDelay \<and> initialResolveDelay \<le> maxResolveDelay"
    by (simp add: initialResolveDelay_def maxResolveDelay_def Second_def)
  have m: "0 < min (2 * effective_delay t) maxResolveDelay
      \<and> min (2 * effective_delay t) maxResolveDelay \<le> maxResolveDelay"
    using e i by (simp add: min_def)
  show "0 < resolveDelay (fst (snd (resolve d t w))) \<or> resolver (config d) = None"
  proof (cases "resolver (config d)")
    case None
    then show ?thesis by simp
  next
    case (Some R)
    show ?thesis
    proof (cases "throttled d t w")
      case True
      then show ?thesis using resolve_throttled [OF Some True] e by simp
    next
      case False
      show ?thesis
      proof (cases "R (resolver_tick t w) (dest t)")
        case None
        then show ?thesis
          using resolve_not_found(4) [OF Some False None] doubled_delay [OF assms] m by simp
      next
        case (Some n)
        then show ?thesis
          using resolve_found(4) [OF \<open>resolver (config d) = Some R\<close> False Some] i by simp
      qed
    qed
  qed
  show "resolveDelay (fst (snd (resolve d t w))) \<le> maxResolveDelay"
  proof (cases "resolver (config d)")
    case None
    then show ?thesis using assms by (simp add: resolve_no_resolver)
  next
    case (Some R)
    show ?thesis
    proof (cases "throttled d t w")
      case True
      then show ?thesis using resolve_throttled [OF Some True] e by simp
    next
      case False
      show ?thesis
      proof (cases "R (resolver_tick t w) (dest t)")
        case None
        then show ?thesis
          using resolve_not_found(4) [OF Some False None] doubled_delay [OF assms] m by simp
      next
        case (Some n)
        then show ?thesis
          using resolve_found(4) [OF \<open>resolver (config d) = Some R\<close> False Some] i by simp
      qed
    qed
  qed
qed

lemma resolve_last_resolved:
  assumes "resolver (config d) = Some R" "\<not> throttled d t w"
  shows "lastResolved (fst (snd (resolve d t w))) = clock (config d) (Suc (resolver_tick t w))"
proof (cases "R (resolver_tick t w) (dest t)")
  case None
  then show ?thesis using resolve_not_found(5) [OF assms None] by simp
next
  case (Some n)
  then show ?thesis using resolve_found(5) [OF assms Some] by simp
qed

lemma throttled_after_query:
  assumes "resolver (config d) = Some R" "\<not> throttled d t w"
    "0 \<le> resolveDelay t" "resolveDelay t \<le> maxResolveDelay"
    "0 < clock (config d) (Suc (resolver_tick t w))"
    "int64 (clock (config d) (Suc (resolver_tick t w)))"
    "0 \<le> clock (config d) (ticks w')" "int64 (clock (config d) (ticks w'))"
  shows "throttled d (fst (snd (resolve d t w))) w' =
      (clock (config d) (ticks w') - clock (config d) (Suc (resolver_tick t w))
         < resolveDelay (fst (snd (resolve d t w))))"
    and "effective_delay (fst (snd (resolve d t w))) = resolveDelay (fst (snd (resolve d t w)))"
proof -
  define t1 where "t1 = fst (snd (resolve d t w))"
  have l: "lastResolved t1 = clock (config d) (Suc (resolver_tick t w))"
    unfolding t1_def using assms(1,2) by (rule resolve_last_resolved)
  have "0 < resolveDelay t1"
    using resolve_delay_range(1) [OF assms(3,4), of d w] assms(1) by (simp add: t1_def)
  then show e: "effective_delay (fst (snd (resolve d t w))) = resolveDelay (fst (snd (resolve d t w)))"
    by (simp add: effective_delay_def t1_def)
  have "throttled d t1 w' = (clock (config d) (ticks w') - lastResolved t1 < effective_delay t1)"
    using assms(5-8) l by (intro throttled_iff) simp_all
  then show "throttled d (fst (snd (resolve d t w))) w' =
      (clock (config d) (ticks w') - clock (config d) (Suc (resolver_tick t w))
         < resolveDelay (fst (snd (resolve d t w))))"
    using l e by (simp add: t1_def)
qed

lemma resolve_again_throttled:
  assumes "resolver (config d) = Some R" "\<not> throttled d t w"
    "0 \<le> resolveDelay t" "resolveDelay t \<le> maxResolveDelay"
    "0 < clock (config d) (Suc (resolver_tick t w))"
    "int64 (clock (config d) (Suc (resolver_tick t w)))"
    "0 \<le> clock (config d) (ticks w')" "int64 (clock (config d) (ticks w'))"
    "clock (config d) (ticks w') - clock (config d) (Suc (resolver_tick t w))
       < resolveDelay (fst (snd (resolve d t w)))"
  shows "fst (resolve d (fst (snd (resolve d t w))) w') = False"
    and "trace (snd (snd (resolve d (fst (snd (resolve d t w))) w'))) =
           trace w' @ [CallResolve (dest (fst (snd (resolve d t w))))]"
    and "fst (snd (resolve d (fst (snd (resolve d t w))) w')) = fst (snd (resolve d t w))"
proof -
  define t1 where "t1 = fst (snd (resolve d t w))"
  have th: "throttled d t1 w'"
    using throttled_after_query(1) [OF assms(1-8)] assms(9) by (simp add: t1_def)
  have e: "effective_delay t1 = resolveDelay t1"
    using throttled_after_query(2) [OF assms(1-8)] by (simp add: t1_def)
  have r: "resolve d t1 w' =
      (False, t1\<lparr>resolveDelay := effective_delay t1\<rparr>, tick (emit (CallResolve (dest t1)) w'))"
    using assms(1) th by (rule resolve_throttled)
  show "fst (resolve d (fst (snd (resolve d t w))) w') = False"
    using r by (simp add: t1_def)
  show "trace (snd (snd (resolve d (fst (snd (resolve d t w))) w'))) =
           trace w' @ [CallResolve (dest (fst (snd (resolve d t w))))]"
    using r by (simp add: t1_def [symmetric] emit_def tick_def)
  show "fst (snd (resolve d (fst (snd (resolve d t w))) w')) = fst (snd (resolve d t w))"
    using r e by (simp add: t1_def [symmetric])
qed

lemma resolve_again_not_throttled:
  assumes "resolver (config d) = Some R" "\<not> throttled d t w"
    "0 \<le> resolveDelay t" "resolveDelay t \<le> maxResolveDelay"
    "0 < clock (config d) (Suc (resolver_tick t w))"
    "int64 (clock (config d) (Suc (resolver_tick t w)))"
    "0 \<le> clock (config d) (ticks w')" "int64 (clock (config d) (ticks w'))"
    "resolveDelay (fst (snd (resolve d t w)))
       \<le> clock (config d) (ticks w') - clock (config d) (Suc (resolver_tick t w))"
  shows "\<not> throttled d (fst (snd (resolve d t w))) w'"
  using throttled_after_query(1) [OF assms(1-8)] assms(9) by simp

text \<open>
  C5, as amended. Without a resolver \<open>resolve\<close> returns false and leaves the task as
  it is. With one: a throttled call returns false without asking the resolver; a call
  that asks and finds nothing returns false and doubles the delay, up to
  \<open>maxResolveDelay\<close>; a call that finds the node returns true, sets the delay back to
  \<open>initialResolveDelay\<close> and replaces the destination. A call that asks the resolver
  stores the reading of the clock it takes afterwards in \<open>lastResolved\<close>. When that
  reading is positive, a later call at a clock less than the new delay after it
  returns false without asking the resolver and leaves the task as it is, and a later
  call at a clock at least the delay after it is not throttled. A reading of 0 is the
  value of a task never resolved, and throttles nothing. A new task is not throttled
  and works with the initial delay of 60 seconds; the maximum is one hour, and the
  delay never exceeds it.
\<close>

theorem resolve_backoff:
  "(resolver (config d) = None \<longrightarrow>
      fst (resolve d t w) = False \<and> fst (snd (resolve d t w)) = t
      \<and> trace (snd (snd (resolve d t w))) = trace w @ [CallResolve (dest t)])
   \<and> (resolver (config d) \<noteq> None \<and> throttled d t w \<longrightarrow>
      fst (resolve d t w) = False
      \<and> trace (snd (snd (resolve d t w))) = trace w @ [CallResolve (dest t)]
      \<and> dest (fst (snd (resolve d t w))) = dest t
      \<and> lastResolved (fst (snd (resolve d t w))) = lastResolved t
      \<and> resolveDelay (fst (snd (resolve d t w))) = effective_delay t)
   \<and> (\<forall>R. resolver (config d) = Some R \<and> \<not> throttled d t w
          \<and> R (resolver_tick t w) (dest t) = None
          \<and> 0 \<le> resolveDelay t \<and> resolveDelay t \<le> maxResolveDelay \<longrightarrow>
      fst (resolve d t w) = False
      \<and> trace (snd (snd (resolve d t w)))
          = trace w @ [CallResolve (dest t), QueryResolver (dest t)]
      \<and> dest (fst (snd (resolve d t w))) = dest t
      \<and> resolveDelay (fst (snd (resolve d t w))) = min (2 * effective_delay t) maxResolveDelay)
   \<and> (\<forall>R n. resolver (config d) = Some R \<and> \<not> throttled d t w
          \<and> R (resolver_tick t w) (dest t) = Some n \<longrightarrow>
      fst (resolve d t w) = True
      \<and> trace (snd (snd (resolve d t w)))
          = trace w @ [CallResolve (dest t), QueryResolver (dest t)]
      \<and> dest (fst (snd (resolve d t w))) = n
      \<and> resolveDelay (fst (snd (resolve d t w))) = initialResolveDelay)
   \<and> (\<forall>R. resolver (config d) = Some R \<and> \<not> throttled d t w \<longrightarrow>
      lastResolved (fst (snd (resolve d t w))) = clock (config d) (Suc (resolver_tick t w)))
   \<and> (\<forall>R w'. resolver (config d) = Some R \<and> \<not> throttled d t w
          \<and> 0 \<le> resolveDelay t \<and> resolveDelay t \<le> maxResolveDelay
          \<and> 0 < clock (config d) (Suc (resolver_tick t w))
          \<and> int64 (clock (config d) (Suc (resolver_tick t w)))
          \<and> 0 \<le> clock (config d) (ticks w') \<and> int64 (clock (config d) (ticks w'))
          \<and> clock (config d) (ticks w') - clock (config d) (Suc (resolver_tick t w))
               < resolveDelay (fst (snd (resolve d t w))) \<longrightarrow>
      fst (resolve d (fst (snd (resolve d t w))) w') = False
      \<and> trace (snd (snd (resolve d (fst (snd (resolve d t w))) w'))) =
           trace w' @ [CallResolve (dest (fst (snd (resolve d t w))))]
      \<and> fst (snd (resolve d (fst (snd (resolve d t w))) w')) = fst (snd (resolve d t w)))
   \<and> (\<forall>R w'. resolver (config d) = Some R \<and> \<not> throttled d t w
          \<and> 0 \<le> resolveDelay t \<and> resolveDelay t \<le> maxResolveDelay
          \<and> 0 < clock (config d) (Suc (resolver_tick t w))
          \<and> int64 (clock (config d) (Suc (resolver_tick t w)))
          \<and> 0 \<le> clock (config d) (ticks w') \<and> int64 (clock (config d) (ticks w'))
          \<and> resolveDelay (fst (snd (resolve d t w)))
               \<le> clock (config d) (ticks w') - clock (config d) (Suc (resolver_tick t w))
        \<longrightarrow> \<not> throttled d (fst (snd (resolve d t w))) w')
   \<and> (0 < lastResolved t \<and> int64 (lastResolved t)
        \<and> 0 \<le> clock (config d) (ticks w) \<and> int64 (clock (config d) (ticks w)) \<longrightarrow>
      throttled d t w = (clock (config d) (ticks w) - lastResolved t < effective_delay t))
   \<and> (0 \<le> resolveDelay t \<and> resolveDelay t \<le> maxResolveDelay \<longrightarrow>
      resolveDelay (fst (snd (resolve d t w))) \<le> maxResolveDelay)
   \<and> \<not> throttled d (newDialTask n0 f0) w
   \<and> effective_delay (newDialTask n0 f0) = 60 * Second
   \<and> initialResolveDelay = 60 * Second
   \<and> maxResolveDelay = 3600 * Second"
proof -
  have 1: "resolver (config d) = None \<longrightarrow>
      fst (resolve d t w) = False \<and> fst (snd (resolve d t w)) = t
      \<and> trace (snd (snd (resolve d t w))) = trace w @ [CallResolve (dest t)]"
    by (simp add: resolve_no_resolver emit_def)
  have 2: "resolver (config d) \<noteq> None \<and> throttled d t w \<longrightarrow>
      fst (resolve d t w) = False
      \<and> trace (snd (snd (resolve d t w))) = trace w @ [CallResolve (dest t)]
      \<and> dest (fst (snd (resolve d t w))) = dest t
      \<and> lastResolved (fst (snd (resolve d t w))) = lastResolved t
      \<and> resolveDelay (fst (snd (resolve d t w))) = effective_delay t"
    by (auto simp: resolve_throttled emit_def tick_def)
  have 3: "\<forall>R. resolver (config d) = Some R \<and> \<not> throttled d t w
          \<and> R (resolver_tick t w) (dest t) = None
          \<and> 0 \<le> resolveDelay t \<and> resolveDelay t \<le> maxResolveDelay \<longrightarrow>
      fst (resolve d t w) = False
      \<and> trace (snd (snd (resolve d t w)))
          = trace w @ [CallResolve (dest t), QueryResolver (dest t)]
      \<and> dest (fst (snd (resolve d t w))) = dest t
      \<and> resolveDelay (fst (snd (resolve d t w))) = min (2 * effective_delay t) maxResolveDelay"
    using resolve_not_found [of d _ t w] doubled_delay [of t] by auto
  have 4: "\<forall>R n. resolver (config d) = Some R \<and> \<not> throttled d t w
          \<and> R (resolver_tick t w) (dest t) = Some n \<longrightarrow>
      fst (resolve d t w) = True
      \<and> trace (snd (snd (resolve d t w)))
          = trace w @ [CallResolve (dest t), QueryResolver (dest t)]
      \<and> dest (fst (snd (resolve d t w))) = n
      \<and> resolveDelay (fst (snd (resolve d t w))) = initialResolveDelay"
    using resolve_found [of d _ t w] by auto
  have a: "\<forall>R. resolver (config d) = Some R \<and> \<not> throttled d t w \<longrightarrow>
      lastResolved (fst (snd (resolve d t w))) = clock (config d) (Suc (resolver_tick t w))"
    using resolve_last_resolved [of d _ t w] by blast
  have b: "\<forall>R w'. resolver (config d) = Some R \<and> \<not> throttled d t w
          \<and> 0 \<le> resolveDelay t \<and> resolveDelay t \<le> maxResolveDelay
          \<and> 0 < clock (config d) (Suc (resolver_tick t w))
          \<and> int64 (clock (config d) (Suc (resolver_tick t w)))
          \<and> 0 \<le> clock (config d) (ticks w') \<and> int64 (clock (config d) (ticks w'))
          \<and> clock (config d) (ticks w') - clock (config d) (Suc (resolver_tick t w))
               < resolveDelay (fst (snd (resolve d t w))) \<longrightarrow>
      fst (resolve d (fst (snd (resolve d t w))) w') = False
      \<and> trace (snd (snd (resolve d (fst (snd (resolve d t w))) w'))) =
           trace w' @ [CallResolve (dest (fst (snd (resolve d t w))))]
      \<and> fst (snd (resolve d (fst (snd (resolve d t w))) w')) = fst (snd (resolve d t w))"
    using resolve_again_throttled [of d _ t w] by blast
  have c: "\<forall>R w'. resolver (config d) = Some R \<and> \<not> throttled d t w
          \<and> 0 \<le> resolveDelay t \<and> resolveDelay t \<le> maxResolveDelay
          \<and> 0 < clock (config d) (Suc (resolver_tick t w))
          \<and> int64 (clock (config d) (Suc (resolver_tick t w)))
          \<and> 0 \<le> clock (config d) (ticks w') \<and> int64 (clock (config d) (ticks w'))
          \<and> resolveDelay (fst (snd (resolve d t w)))
               \<le> clock (config d) (ticks w') - clock (config d) (Suc (resolver_tick t w))
        \<longrightarrow> \<not> throttled d (fst (snd (resolve d t w))) w'"
    using resolve_again_not_throttled [of d _ t w] by blast
  have 5: "0 < lastResolved t \<and> int64 (lastResolved t)
        \<and> 0 \<le> clock (config d) (ticks w) \<and> int64 (clock (config d) (ticks w)) \<longrightarrow>
      throttled d t w = (clock (config d) (ticks w) - lastResolved t < effective_delay t)"
    using throttled_iff [of t d w] by blast
  have 6: "0 \<le> resolveDelay t \<and> resolveDelay t \<le> maxResolveDelay \<longrightarrow>
      resolveDelay (fst (snd (resolve d t w))) \<le> maxResolveDelay"
    using resolve_delay_range(2) [of t d w] by blast
  have 7: "\<not> throttled d (newDialTask n0 f0) w"
    by (simp add: throttled_def newDialTask_def)
  have 8: "effective_delay (newDialTask n0 f0) = 60 * Second"
    by (simp add: effective_delay_def newDialTask_def initialResolveDelay_def)
  have 9: "initialResolveDelay = 60 * Second" "maxResolveDelay = 3600 * Second"
    by (simp_all add: initialResolveDelay_def maxResolveDelay_def)
  show ?thesis
    using 1 2 3 4 a b c 5 6 7 8 9 by (intro conjI)
qed

theorem resolve_backoff_witness:
  "fst (resolve example_sched (example_task 0 0) example_world) = False
   \<and> fst (resolve example_resolving_sched (example_task 0 0) example_world) = False
   \<and> resolveDelay (fst (snd (resolve example_resolving_sched (example_task 0 0) example_world)))
       = 120 * Second
   \<and> throttled example_resolving_sched (example_task (200 * Second) (120 * Second))
       (example_world\<lparr>ticks := 2\<rparr>)
   \<and> fst (resolve example_resolving_sched (example_task (200 * Second) (120 * Second))
       (example_world\<lparr>ticks := 2\<rparr>)) = False
   \<and> trace (snd (snd (resolve example_resolving_sched (example_task (200 * Second) (120 * Second))
       (example_world\<lparr>ticks := 2\<rparr>)))) = [CallResolve (example_node 8 None 0)]
   \<and> fst (resolve example_resolving_sched (example_task (200 * Second) (120 * Second))
       (example_world\<lparr>ticks := 3\<rparr>)) = True
   \<and> resolveDelay (fst (snd (resolve example_resolving_sched
       (example_task (200 * Second) (120 * Second)) (example_world\<lparr>ticks := 3\<rparr>)))) = 60 * Second
   \<and> node_IP (dest (fst (snd (resolve example_resolving_sched
       (example_task (200 * Second) (120 * Second)) (example_world\<lparr>ticks := 3\<rparr>)))))
       = Some [10, 0, 0, 8]
   \<and> resolveDelay (fst (snd (resolve example_resolving_sched
       (example_task 0 (3000 * Second)) (example_world\<lparr>ticks := 0\<rparr>)))) = 3600 * Second
   \<and> lastResolved (fst (snd (resolve example_resolving_sched (example_task 0 0) example_world)))
       = 200 * Second
   \<and> fst (resolve example_resolving_sched
        (fst (snd (resolve example_resolving_sched (example_task 0 0) example_world)))
        (example_world\<lparr>ticks := 2\<rparr>)) = False
   \<and> trace (snd (snd (resolve example_resolving_sched
        (fst (snd (resolve example_resolving_sched (example_task 0 0) example_world)))
        (example_world\<lparr>ticks := 2\<rparr>)))) = [CallResolve (example_node 8 None 0)]
   \<and> \<not> throttled example_resolving_sched
        (fst (snd (resolve example_resolving_sched (example_task 0 0) example_world)))
        (example_world\<lparr>ticks := 3\<rparr>)"
proof -
  note defs = example_sched_def example_config_def example_resolving_sched_def
    example_task_def example_world_def example_resolver_def example_node_def
    throttled_def effective_delay_def resolver_tick_def Second_def
    initialResolveDelay_def maxResolveDelay_def wrap64_def int64_def
  let ?d = example_resolving_sched
  have a: "fst (resolve example_sched (example_task 0 0) example_world) = False"
    using resolve_backoff [of example_sched "example_task 0 0" example_world]
    by (simp add: defs)
  have b: "fst (resolve ?d (example_task 0 0) example_world) = False
     \<and> resolveDelay (fst (snd (resolve ?d (example_task 0 0) example_world))) = 120 * Second"
    using resolve_backoff [of ?d "example_task 0 0" example_world,
        THEN conjunct2, THEN conjunct2, THEN conjunct1, rule_format, of example_resolver]
    by (simp add: defs)
  have c0: "throttled ?d (example_task (200 * Second) (120 * Second)) (example_world\<lparr>ticks := 2\<rparr>)"
    by (simp add: defs)
  have c: "fst (resolve ?d (example_task (200 * Second) (120 * Second))
       (example_world\<lparr>ticks := 2\<rparr>)) = False
     \<and> trace (snd (snd (resolve ?d (example_task (200 * Second) (120 * Second))
       (example_world\<lparr>ticks := 2\<rparr>)))) = [CallResolve (example_node 8 None 0)]"
    using resolve_backoff [of ?d "example_task (200 * Second) (120 * Second)"
        "example_world\<lparr>ticks := 2\<rparr>", THEN conjunct2, THEN conjunct1] c0
    by (simp add: example_resolving_sched_def example_task_def example_world_def)
  have e: "fst (resolve ?d (example_task (200 * Second) (120 * Second))
       (example_world\<lparr>ticks := 3\<rparr>)) = True
     \<and> resolveDelay (fst (snd (resolve ?d
       (example_task (200 * Second) (120 * Second)) (example_world\<lparr>ticks := 3\<rparr>)))) = 60 * Second
     \<and> node_IP (dest (fst (snd (resolve ?d
       (example_task (200 * Second) (120 * Second)) (example_world\<lparr>ticks := 3\<rparr>)))))
       = Some [10, 0, 0, 8]"
    using resolve_backoff [of ?d "example_task (200 * Second) (120 * Second)"
        "example_world\<lparr>ticks := 3\<rparr>",
        THEN conjunct2, THEN conjunct2, THEN conjunct2, THEN conjunct1, rule_format,
        of example_resolver
          "(example_node 8 None 0)\<lparr>node_IP := Some [10, 0, 0, 8], node_TCP := 30303\<rparr>"]
    by (simp add: defs)
  have f: "resolveDelay (fst (snd (resolve ?d
       (example_task 0 (3000 * Second)) (example_world\<lparr>ticks := 0\<rparr>)))) = 3600 * Second"
    using resolve_backoff [of ?d "example_task 0 (3000 * Second)"
        "example_world\<lparr>ticks := 0\<rparr>",
        THEN conjunct2, THEN conjunct2, THEN conjunct1, rule_format, of example_resolver]
    by (simp add: defs)
  let ?t0 = "example_task 0 0"
  let ?t1 = "fst (snd (resolve ?d ?t0 example_world))"
  have r: "resolver (config ?d) = Some example_resolver"
    by (simp add: defs)
  have nt: "\<not> throttled ?d ?t0 example_world"
    by (simp add: defs)
  have rg: "0 \<le> resolveDelay ?t0 \<and> resolveDelay ?t0 \<le> maxResolveDelay"
    by (simp add: defs)
  have ck: "clock (config ?d) (Suc (resolver_tick ?t0 example_world)) = 200 * Second"
    by (simp add: defs)
  have rd: "resolveDelay ?t1 = 120 * Second"
    using b by simp
  have dt: "dest ?t1 = example_node 8 None 0"
    using resolve_backoff [of ?d ?t0 example_world,
        THEN conjunct2, THEN conjunct2, THEN conjunct1, rule_format, of example_resolver]
    by (simp add: defs)
  have g: "lastResolved ?t1 = 200 * Second"
    using resolve_backoff [of ?d ?t0 example_world,
        THEN conjunct2, THEN conjunct2, THEN conjunct2, THEN conjunct2, THEN conjunct1,
        rule_format, of example_resolver] r nt ck
    by simp
  have c2: "clock (config ?d) (ticks (example_world\<lparr>ticks := 2\<rparr>)) = 300 * Second"
      "clock (config ?d) (ticks (example_world\<lparr>ticks := 3\<rparr>)) = 400 * Second"
    by (simp_all add: defs)
  have h: "fst (resolve ?d ?t1 (example_world\<lparr>ticks := 2\<rparr>)) = False
     \<and> trace (snd (snd (resolve ?d ?t1 (example_world\<lparr>ticks := 2\<rparr>))))
         = [CallResolve (example_node 8 None 0)]"
    using resolve_backoff [of ?d ?t0 example_world,
        THEN conjunct2, THEN conjunct2, THEN conjunct2, THEN conjunct2, THEN conjunct2,
        THEN conjunct1, rule_format, of example_resolver "example_world\<lparr>ticks := 2\<rparr>"]
      r nt rg ck rd dt c2(1)
    by (simp add: Second_def int64_def example_world_def)
  have i: "\<not> throttled ?d ?t1 (example_world\<lparr>ticks := 3\<rparr>)"
    using resolve_backoff [of ?d ?t0 example_world,
        THEN conjunct2, THEN conjunct2, THEN conjunct2, THEN conjunct2, THEN conjunct2,
        THEN conjunct2, THEN conjunct1, rule_format, of example_resolver
        "example_world\<lparr>ticks := 3\<rparr>"]
      r nt rg ck rd c2(2)
    by (simp add: Second_def int64_def)
  show ?thesis using a b c0 c e f g h i by simp
qed

text \<open>
  The claim as it was stated fails: the first attempt is recorded at a clock reading
  of 0, the second comes one second later, well within the delay of 120 seconds, and
  it asks the resolver again.
\<close>

theorem resolve_again_at_clock_zero:
  "lastResolved (fst (snd (resolve example_zero_clock_sched (example_task 0 0) example_world))) = 0
   \<and> resolveDelay (fst (snd (resolve example_zero_clock_sched (example_task 0 0) example_world)))
       = 120 * Second
   \<and> ticks (snd (snd (resolve example_zero_clock_sched (example_task 0 0) example_world))) = 2
   \<and> clock (config example_zero_clock_sched) 2 = 1 * Second
   \<and> trace (snd (snd (resolve example_zero_clock_sched
        (fst (snd (resolve example_zero_clock_sched (example_task 0 0) example_world)))
        (snd (snd (resolve example_zero_clock_sched (example_task 0 0) example_world))))))
       = [CallResolve (example_node 8 None 0), QueryResolver (example_node 8 None 0),
          CallResolve (example_node 8 None 0), QueryResolver (example_node 8 None 0)]"
  by (simp add: resolve_def Let_def emit_def tick_def example_zero_clock_sched_def
      example_sched_def example_config_def example_task_def example_world_def
      example_resolver_def example_node_def Second_def initialResolveDelay_def
      maxResolveDelay_def wrap64_def)

subsection \<open>The events of dial, resolve and startDial\<close>

lemma dial_calls_append: "dial_calls (xs @ ys) = dial_calls xs + dial_calls ys"
  by (induction xs rule: dial_calls.induct) simp_all

lemma resolve_calls_append: "resolve_calls (xs @ ys) = resolve_calls xs + resolve_calls ys"
  by (induction xs rule: resolve_calls.induct) simp_all

lemma reports_append: "reports (xs @ ys) = reports xs @ reports ys"
  by (induction xs rule: reports.induct) simp_all

lemma events_since_append: "trace w' = trace w @ evs \<Longrightarrow> events_since w w' = evs"
  by (simp add: events_since_def)

lemma dial_events:
  "\<exists>evs. trace (snd (dial d t w)) = trace w @ evs
     \<and> dial_calls evs = 1 \<and> resolve_calls evs = 0 \<and> reports evs = []"
  by (cases "dialer (config d) (ticks w) (dest t)")
    (simp_all add: dial_def Let_def emit_def tick_def)

lemma resolve_events:
  "\<exists>evs. trace (snd (snd (resolve d t w))) = trace w @ evs
     \<and> dial_calls evs = 0 \<and> resolve_calls evs = 1 \<and> reports evs = []"
proof (cases "resolver (config d)")
  case None
  then show ?thesis by (simp add: resolve_no_resolver emit_def)
next
  case (Some R)
  show ?thesis
  proof (cases "throttled d t w")
    case True
    then show ?thesis by (simp add: resolve_throttled [OF Some] emit_def tick_def)
  next
    case False
    show ?thesis
    proof (cases "R (resolver_tick t w) (dest t)")
      case None
      then show ?thesis using resolve_not_found(3) [OF Some False None] by simp
    next
      case (Some n)
      then show ?thesis
        using resolve_found(3) [OF \<open>resolver (config d) = Some R\<close> False Some] by simp
    qed
  qed
qed

lemma startDial_dial_cases:
  "startDial_dial d task w =
     (case fst (dial d task w) of
        None \<Rightarrow> (task, snd (dial d task w))
      | Some e \<Rightarrow>
          if is_dialError e \<and> staticDialedConn \<in> flags task then
            (if fst (resolve d task (snd (dial d task w))) then
               (fst (snd (resolve d task (snd (dial d task w)))),
                snd (dial d (fst (snd (resolve d task (snd (dial d task w)))))
                       (snd (snd (resolve d task (snd (dial d task w)))))))
             else snd (resolve d task (snd (dial d task w))))
          else (task, snd (dial d task w)))"
  by (simp add: startDial_dial_def split_def Let_def split: option.splits)

lemma startDial_dial_events:
  "\<exists>evs. trace (snd (startDial_dial d task w)) = trace w @ evs \<and> reports evs = []
    \<and> (case fst (dial d task w) of
         None \<Rightarrow> dial_calls evs = 1 \<and> resolve_calls evs = 0
       | Some e \<Rightarrow>
           if is_dialError e \<and> staticDialedConn \<in> flags task then
             resolve_calls evs = 1
             \<and> dial_calls evs = (if fst (resolve d task (snd (dial d task w))) then 2 else 1)
           else dial_calls evs = 1 \<and> resolve_calls evs = 0)"
proof -
  define w1 where "w1 = snd (dial d task w)"
  obtain e1 where e1: "trace w1 = trace w @ e1" "dial_calls e1 = 1" "resolve_calls e1 = 0"
      "reports e1 = []"
    using dial_events [of d task w] by (auto simp: w1_def)
  define t2 where "t2 = fst (snd (resolve d task w1))"
  define w2 where "w2 = snd (snd (resolve d task w1))"
  obtain e2 where e2: "trace w2 = trace w1 @ e2" "dial_calls e2 = 0" "resolve_calls e2 = 1"
      "reports e2 = []"
    using resolve_events [of d task w1] by (auto simp: w2_def)
  define w3 where "w3 = snd (dial d t2 w2)"
  obtain e3 where e3: "trace w3 = trace w2 @ e3" "dial_calls e3 = 1" "resolve_calls e3 = 0"
      "reports e3 = []"
    using dial_events [of d t2 w2] by (auto simp: w3_def)
  show ?thesis
  proof (cases "fst (dial d task w)")
    case None
    then show ?thesis
      using e1 by (simp add: startDial_dial_cases w1_def)
  next
    case (Some e)
    show ?thesis
    proof (cases "is_dialError e \<and> staticDialedConn \<in> flags task")
      case False
      then show ?thesis
        using Some e1 by (auto simp: startDial_dial_cases w1_def)
    next
      case True
      show ?thesis
      proof (cases "fst (resolve d task w1)")
        case ok: True
        have "trace w3 = trace w @ (e1 @ e2 @ e3)" using e1 e2 e3 by simp
        moreover have "dial_calls (e1 @ e2 @ e3) = 2" "resolve_calls (e1 @ e2 @ e3) = 1"
            "reports (e1 @ e2 @ e3) = []"
          using e1 e2 e3 by (simp_all add: dial_calls_append resolve_calls_append reports_append)
        moreover have "snd (startDial_dial d task w) = w3"
          using Some True ok by (simp add: startDial_dial_cases w1_def w2_def w3_def t2_def)
        ultimately show ?thesis
          using Some True ok by (auto simp: w1_def)
      next
        case no: False
        have "trace w2 = trace w @ (e1 @ e2)" using e1 e2 by simp
        moreover have "dial_calls (e1 @ e2) = 1" "resolve_calls (e1 @ e2) = 1"
            "reports (e1 @ e2) = []"
          using e1 e2 by (simp_all add: dial_calls_append resolve_calls_append reports_append)
        moreover have "snd (startDial_dial d task w) = w2"
          using Some True no by (simp add: startDial_dial_cases w1_def w2_def)
        ultimately show ?thesis
          using Some True no by (auto simp: w1_def)
      qed
    qed
  qed
qed

lemma dial_error_wrapped:
  "dialer (config d) (ticks w) (dest task) = Inl err \<Longrightarrow> fst (dial d task w) = Some (dialError err)"
  by (simp add: dial_def Let_def)

lemma resolve_config:
  "config d' = config d \<Longrightarrow> resolve d' t w = resolve d t w"
  by (simp add: resolve_def cong: option.case_cong if_cong)

subsection \<open>The retry of a failed dial\<close>

text \<open>
  C6. When the first dial of a task fails: if the error is a \<open>dialError\<close> and the task
  has the static flag, \<open>resolve\<close> is called exactly once, and \<open>dial\<close> is called a
  second time exactly when that call returns true, so at most twice in all; if the task
  does not have the static flag, \<open>resolve\<close> is not called and \<open>dial\<close> is called once.
  An error of the dialer is a \<open>dialError\<close>; \<open>errSelf\<close> is not.
\<close>

theorem startDial_retry:
  "(fst (dial d task w) = Some e \<longrightarrow>
      (is_dialError e \<and> staticDialedConn \<in> flags task \<longrightarrow>
         resolve_calls (events_since w (snd (startDial_dial d task w))) = 1
         \<and> dial_calls (events_since w (snd (startDial_dial d task w)))
             = (if fst (resolve d task (snd (dial d task w))) then 2 else 1)
         \<and> dial_calls (events_since w (snd (startDial_dial d task w))) \<le> 2)
      \<and> (staticDialedConn \<notin> flags task \<longrightarrow>
         resolve_calls (events_since w (snd (startDial_dial d task w))) = 0
         \<and> dial_calls (events_since w (snd (startDial_dial d task w))) = 1))
   \<and> (\<forall>err. dialer (config d) (ticks w) (dest task) = Inl err \<longrightarrow>
         fst (dial d task w) = Some (dialError err) \<and> is_dialError (dialError err))
   \<and> \<not> is_dialError errSelf"
proof -
  obtain evs where evs: "trace (snd (startDial_dial d task w)) = trace w @ evs"
    and c: "case fst (dial d task w) of
         None \<Rightarrow> dial_calls evs = 1 \<and> resolve_calls evs = 0
       | Some e \<Rightarrow>
           if is_dialError e \<and> staticDialedConn \<in> flags task then
             resolve_calls evs = 1
             \<and> dial_calls evs = (if fst (resolve d task (snd (dial d task w))) then 2 else 1)
           else dial_calls evs = 1 \<and> resolve_calls evs = 0"
    using startDial_dial_events [of d task w] by blast
  have s: "events_since w (snd (startDial_dial d task w)) = evs"
    using evs by (rule events_since_append)
  have 1: "fst (dial d task w) = Some e \<longrightarrow>
      (is_dialError e \<and> staticDialedConn \<in> flags task \<longrightarrow>
         resolve_calls evs = 1
         \<and> dial_calls evs = (if fst (resolve d task (snd (dial d task w))) then 2 else 1)
         \<and> dial_calls evs \<le> 2)
      \<and> (staticDialedConn \<notin> flags task \<longrightarrow> resolve_calls evs = 0 \<and> dial_calls evs = 1)"
    using c by (auto split: if_splits)
  have 2: "\<forall>err. dialer (config d) (ticks w) (dest task) = Inl err \<longrightarrow>
         fst (dial d task w) = Some (dialError err) \<and> is_dialError (dialError err)"
    by (simp add: dial_error_wrapped)
  show ?thesis
    using 1 2 unfolding s by simp
qed

theorem startDial_retry_witness:
  "fst (dial example_sched example_static_task example_world)
     = Some (dialError (externalError ''connection refused''))
   \<and> resolve_calls (events_since example_world
        (snd (startDial_dial example_sched example_static_task example_world))) = 1
   \<and> dial_calls (events_since example_world
        (snd (startDial_dial example_sched example_static_task example_world))) = 1
   \<and> resolve_calls (events_since (example_world\<lparr>ticks := 4\<rparr>)
        (snd (startDial_dial example_resolving_sched example_static_task
           (example_world\<lparr>ticks := 4\<rparr>)))) = 1
   \<and> dial_calls (events_since (example_world\<lparr>ticks := 4\<rparr>)
        (snd (startDial_dial example_resolving_sched example_static_task
           (example_world\<lparr>ticks := 4\<rparr>)))) = 2
   \<and> resolve_calls (events_since example_world
        (snd (startDial_dial example_sched example_dynamic_task example_world))) = 0
   \<and> dial_calls (events_since example_world
        (snd (startDial_dial example_sched example_dynamic_task example_world))) = 1"
proof -
  note defs = example_sched_def example_config_def example_resolving_sched_def
    example_world_def example_resolver_def example_node_def example_static_task_def
    example_dynamic_task_def newDialTask_def
  have f1: "fst (dial example_sched example_static_task example_world)
     = Some (dialError (externalError ''connection refused''))"
    by (simp add: dial_def Let_def defs)
  have f2: "fst (dial example_resolving_sched example_static_task (example_world\<lparr>ticks := 4\<rparr>))
     = Some (dialError (externalError ''connection refused''))"
    by (simp add: dial_def Let_def defs)
  have f3: "fst (dial example_sched example_dynamic_task example_world)
     = Some (dialError (externalError ''connection refused''))"
    by (simp add: dial_def Let_def defs)
  have r1: "\<not> fst (resolve example_sched example_static_task
      (snd (dial example_sched example_static_task example_world)))"
    by (simp add: resolve_no_resolver defs)
  have r2: "fst (resolve example_resolving_sched example_static_task
      (snd (dial example_resolving_sched example_static_task (example_world\<lparr>ticks := 4\<rparr>))))"
    by (simp add: resolve_def dial_def Let_def emit_def tick_def defs)
  have a: "resolve_calls (events_since example_world
        (snd (startDial_dial example_sched example_static_task example_world))) = 1
     \<and> dial_calls (events_since example_world
        (snd (startDial_dial example_sched example_static_task example_world))) = 1"
    using startDial_retry [of example_sched example_static_task example_world
        "dialError (externalError ''connection refused'')"] f1 r1
    by (simp add: example_static_task_def newDialTask_def)
  have b: "resolve_calls (events_since (example_world\<lparr>ticks := 4\<rparr>)
        (snd (startDial_dial example_resolving_sched example_static_task
           (example_world\<lparr>ticks := 4\<rparr>)))) = 1
     \<and> dial_calls (events_since (example_world\<lparr>ticks := 4\<rparr>)
        (snd (startDial_dial example_resolving_sched example_static_task
           (example_world\<lparr>ticks := 4\<rparr>)))) = 2"
    using startDial_retry [of example_resolving_sched example_static_task
        "example_world\<lparr>ticks := 4\<rparr>" "dialError (externalError ''connection refused'')"] f2 r2
    by (simp add: example_static_task_def newDialTask_def)
  have c: "resolve_calls (events_since example_world
        (snd (startDial_dial example_sched example_dynamic_task example_world))) = 0
     \<and> dial_calls (events_since example_world
        (snd (startDial_dial example_sched example_dynamic_task example_world))) = 1"
    using startDial_retry [of example_sched example_dynamic_task example_world
        "dialError (externalError ''connection refused'')"] f3
    by (simp add: example_dynamic_task_def newDialTask_def)
  show ?thesis using f1 a b c by simp
qed

subsection \<open>The report on doneCh\<close>

text \<open>
  What \<open>startDial\<close> sends on \<open>doneCh\<close>: the task, once, unless the task needs
  resolution and \<open>resolve\<close> returns false; then nothing is sent.
\<close>

lemma startDial_reports:
  "reports (events_since w (snd (snd (startDial itt d task w)))) =
     (if needResolve task \<and> \<not> fst (resolve d task (tick w)) then []
      else [fst (snd (startDial itt d task w))])"
proof -
  define d2 where "d2 = d\<lparr>history := history_Add (history d) (node_ID (dest task))
        (time_Now w (ticks w) + dialHistoryExpiration itt),
      dialing := insert (node_ID (dest task)) (dialing d)\<rparr>"
  have rc: "resolve d2 task (tick w) = resolve d task (tick w)"
    by (rule resolve_config) (simp add: d2_def)
  have tw: "trace (tick w) = trace w" "time_Now (tick w) = time_Now w"
    by (simp_all add: tick_def)
  obtain e1 where e1: "trace (snd (snd (resolve d task (tick w)))) = trace w @ e1"
      "reports e1 = []"
    using resolve_events [of d task "tick w"] tw by auto
  show ?thesis
  proof (cases "needResolve task")
    case False
    obtain e2 where e2: "trace (snd (startDial_dial d2 task (tick w))) = trace w @ e2"
        "reports e2 = []"
      using startDial_dial_events [of d2 task "tick w"] tw by auto
    have "startDial itt d task w =
        (d2, fst (startDial_dial d2 task (tick w)),
         emit (SendDone (fst (startDial_dial d2 task (tick w)))) (snd (startDial_dial d2 task (tick w))))"
      using False by (simp add: startDial_def Let_def split_def d2_def tw)
    then show ?thesis
      using False e2 by (simp add: events_since_def emit_def reports_append)
  next
    case True
    show ?thesis
    proof (cases "fst (resolve d task (tick w))")
      case no: False
      have "startDial itt d task w =
          (d2, fst (snd (resolve d task (tick w))), snd (snd (resolve d task (tick w))))"
        using True no rc by (simp add: startDial_def Let_def split_def d2_def [symmetric] tw)
      then show ?thesis
        using True no e1 by (simp add: events_since_def)
    next
      case ok: True
      define t1 where "t1 = fst (snd (resolve d task (tick w)))"
      define w1 where "w1 = snd (snd (resolve d task (tick w)))"
      obtain e2 where e2: "trace (snd (startDial_dial d2 t1 w1)) = trace w1 @ e2"
          "reports e2 = []"
        using startDial_dial_events [of d2 t1 w1] by auto
      have "startDial itt d task w =
          (d2, fst (startDial_dial d2 t1 w1),
           emit (SendDone (fst (startDial_dial d2 t1 w1))) (snd (startDial_dial d2 t1 w1)))"
        using True ok rc
        by (simp add: startDial_def Let_def split_def d2_def [symmetric] tw t1_def w1_def)
      then show ?thesis
        using True ok e1 e2 by (simp add: events_since_def emit_def reports_append w1_def)
    qed
  qed
qed

text \<open>
  C3. For a static task whose node has no IP, on a scheduler without a resolver,
  \<open>startDial\<close> puts the node into \<open>dialing\<close> and returns before the goroutine is
  started: the task is never sent on \<open>doneCh\<close>.
\<close>

theorem startDial_unreported:
  "needResolve (newDialTask (example_node 8 None 0) {staticDialedConn})
   \<and> reports (trace (snd (snd (startDial (30 * Second) example_sched
        (newDialTask (example_node 8 None 0) {staticDialedConn}) example_world)))) = []
   \<and> node_ID (example_node 8 None 0)
       \<in> dialing (fst (startDial (30 * Second) example_sched
            (newDialTask (example_node 8 None 0) {staticDialedConn}) example_world))"
  by (simp add: startDial_def needResolve_def newDialTask_def resolve_def Let_def emit_def
      tick_def example_sched_def example_config_def example_world_def example_node_def)

subsection \<open>startStaticDials\<close>

lemma checkDial_staticPool [simp]: "checkDial (d\<lparr>staticPool := q\<rparr>) n = checkDial d n"
  by (simp add: checkDial_def)

lemma admits_staticPool [simp]: "admits (d\<lparr>staticPool := q\<rparr>) e = admits d e"
  by (simp add: admits_def)

lemma admits_index [simp]: "admits d (e\<lparr>index := x\<rparr>) = admits d e"
  by (simp add: admits_def)

lemma task_of_entry_index [simp]: "task_of_entry (e\<lparr>index := x\<rparr>) = task_of_entry e"
  by (simp add: task_of_entry_def)

lemma popImpl_Some:
  assumes "pool_inv q" "heap q \<noteq> []"
  shows "\<exists>q'. popImpl q = (Some ((heap q ! 0)\<lparr>index := - 1\<rparr>), q') \<and> pool_inv q'
    \<and> set_mset (entries (heap q')) \<subseteq> set_mset (entries (heap q))"
proof -
  have ok: "heap_ok (heap q) (length (heap q))" using assms by (simp add: pool_inv_def)
  have r: "fst (heap_Pop (heap q)) = (heap q ! 0)\<lparr>index := - 1\<rparr>"
      "entries (heap q) = entries (snd (heap_Pop (heap q))) + {#content (heap q ! 0)#}"
    using heap_Pop_result [OF assms(2) ok] by simp_all
  have p: "popImpl q = (Some ((heap q ! 0)\<lparr>index := - 1\<rparr>), snd (popImpl q))"
    using assms(2) r(1) by (simp add: popImpl_def split_def Let_def)
  have h: "heap (snd (popImpl q)) = snd (heap_Pop (heap q))"
    using assms(2) by (simp add: popImpl_def split_def Let_def)
  have "set_mset (entries (heap q))
      = insert (content (heap q ! 0)) (set_mset (entries (snd (heap_Pop (heap q)))))"
    by (subst r(2)) simp
  then have "set_mset (entries (heap (snd (popImpl q)))) \<subseteq> set_mset (entries (heap q))"
    unfolding h by auto
  then show ?thesis
    using p pool_inv_pop [OF assms(1)] by blast
qed

lemma loop_admits:
  assumes "pool_inv (staticPool d)"
  shows "\<exists>started' new d'.
      startStaticDials_loop d n started res = Inr (started', res @ new, d')
      \<and> (\<forall>t \<in> set new. \<exists>e \<in> set (heap (staticPool d)). t = task_of_entry e \<and> admits d e)"
  using assms
proof (induction d n started res rule: startStaticDials_loop.induct)
  case (1 d n started res)
  show ?case
  proof (cases "started < n \<and> Len (staticPool d) > 0")
    case False
    then have "startStaticDials_loop d n started res = Inr (started, res @ [], d)"
      by (subst startStaticDials_loop.simps) auto
    then show ?thesis by fastforce
  next
    case True
    have ne: "heap (staticPool d) \<noteq> []"
      using True pool_inv_Len [OF "1.prems"] by auto
    define task where "task = (heap (staticPool d) ! 0)\<lparr>index := - 1\<rparr>"
    obtain q where q: "popImpl (staticPool d) = (Some task, q)" "pool_inv q"
        "set_mset (entries (heap q)) \<subseteq> set_mset (entries (heap (staticPool d)))"
      using popImpl_Some [OF "1.prems" ne] by (auto simp: task_def)
    define d1 where "d1 = d\<lparr>staticPool := q\<rparr>"
    have inv1: "pool_inv (staticPool d1)" using q(2) by (simp add: d1_def)
    have e0: "heap (staticPool d) ! 0 \<in> set (heap (staticPool d))"
      using ne by simp
    have sub: "\<exists>e \<in> set (heap (staticPool d)). t = task_of_entry e \<and> admits d e"
      if "\<exists>e \<in> set (heap (staticPool d1)). t = task_of_entry e \<and> admits d1 e" for t
    proof -
      from that obtain e where e: "e \<in> set (heap q)" "t = task_of_entry e" "admits d e"
        by (auto simp: d1_def)
      then have "content e \<in># entries (heap q)" by (auto simp: entries_def)
      then have "content e \<in># entries (heap (staticPool d))" using q(3) by blast
      then obtain e' where e': "e' \<in> set (heap (staticPool d))" "content e' = content e"
        by (auto simp: entries_def)
      then have "task_of_entry e' = task_of_entry e" "admits d e' = admits d e"
        by (simp_all add: content_def task_of_entry_def admits_def)
      then show ?thesis using e e' by (intro bexI [of _ e']) simp_all
    qed
    have skip: ?thesis
      if eq: "startStaticDials_loop d n started res = startStaticDials_loop d1 n started res"
        and ih: "\<exists>started' new d'.
          startStaticDials_loop d1 n started res = Inr (started', res @ new, d')
          \<and> (\<forall>t \<in> set new. \<exists>e \<in> set (heap (staticPool d1)). t = task_of_entry e \<and> admits d1 e)"
    proof -
      from ih obtain started' new d' where
        r: "startStaticDials_loop d1 n started res = Inr (started', res @ new, d')"
          "\<forall>t \<in> set new. \<exists>e \<in> set (heap (staticPool d1)). t = task_of_entry e \<and> admits d1 e"
        by blast
      have "\<forall>t \<in> set new. \<exists>e \<in> set (heap (staticPool d)). t = task_of_entry e \<and> admits d e"
        using r(2) sub by blast
      then show ?thesis using r(1) eq by auto
    qed
    have unf: "startStaticDials_loop d n started res =
       (if isStatic task \<and> node_ID (addr task) \<notin> static d1 then
               startStaticDials_loop d1 n started res
             else if node_ID (addr task) \<in> peers d1 then
               startStaticDials_loop d1 n started res
             else
               (case checkDial d1 (addr task) of
                  Some err \<Rightarrow> startStaticDials_loop d1 n started res
                | None \<Rightarrow>
                    startStaticDials_loop d1 n (wrap64 (started + 1)) (res @ [task_of_entry task])))"
      using True q(1)
      by (subst startStaticDials_loop.simps)
        (simp add: Let_def d1_def task_of_entry_def split: option.splits)
    show ?thesis
    proof (cases "isStatic task \<and> node_ID (addr task) \<notin> static d1")
      case c1: True
      have "\<exists>started' new d'.
          startStaticDials_loop d1 n started res = Inr (started', res @ new, d')
          \<and> (\<forall>t \<in> set new. \<exists>e \<in> set (heap (staticPool d1)). t = task_of_entry e \<and> admits d1 e)"
        using True q(1) c1 inv1 by (intro "1.IH"(1) [of "Some task" q task d1])
          (simp_all add: d1_def)
      then show ?thesis using c1 unf by (intro skip) simp_all
    next
      case c1: False
      show ?thesis
      proof (cases "node_ID (addr task) \<in> peers d1")
        case c2: True
        have "\<exists>started' new d'.
            startStaticDials_loop d1 n started res = Inr (started', res @ new, d')
            \<and> (\<forall>t \<in> set new. \<exists>e \<in> set (heap (staticPool d1)). t = task_of_entry e \<and> admits d1 e)"
          using True q(1) c1 c2 inv1
          by (intro "1.IH"(2) [of "Some task" q task d1]) (simp_all add: d1_def)
        then show ?thesis using c1 c2 unf by (intro skip) simp_all
      next
        case c2: False
        show ?thesis
        proof (cases "checkDial d1 (addr task)")
          case (Some err)
          have "\<exists>started' new d'.
              startStaticDials_loop d1 n started res = Inr (started', res @ new, d')
              \<and> (\<forall>t \<in> set new. \<exists>e \<in> set (heap (staticPool d1)). t = task_of_entry e \<and> admits d1 e)"
            using True q(1) c1 c2 Some inv1
            by (intro "1.IH"(4) [of "Some task" q task d1 err]) (simp_all add: d1_def)
          then show ?thesis using c1 c2 Some unf by (intro skip) simp_all
        next
          case None
          define ttt where "ttt = (if isStatic task then newDialTask (addr task) {staticDialedConn}
                               else newDialTask (addr task) {dynDialedConn})"
          have tt: "ttt = task_of_entry task" by (simp add: ttt_def task_of_entry_def)
          have "\<exists>started' new d'.
              startStaticDials_loop d1 n (wrap64 (started + 1)) (res @ [ttt])
                = Inr (started', (res @ [ttt]) @ new, d')
              \<and> (\<forall>t \<in> set new. \<exists>e \<in> set (heap (staticPool d1)). t = task_of_entry e \<and> admits d1 e)"
            using True q(1) c1 c2 None inv1
            by (intro "1.IH"(3) [of "Some task" q task d1 ttt])
              (simp_all add: d1_def ttt_def)
          then obtain started' new d' where
            r: "startStaticDials_loop d1 n (wrap64 (started + 1)) (res @ [ttt])
                = Inr (started', (res @ [ttt]) @ new, d')"
              "\<forall>t \<in> set new. \<exists>e \<in> set (heap (staticPool d1)). t = task_of_entry e \<and> admits d1 e"
            by blast
          have a0: "admits d (heap (staticPool d) ! 0)"
            using c1 c2 None by (auto simp: admits_def d1_def task_def)
          have t0: "ttt = task_of_entry (heap (staticPool d) ! 0)"
            by (simp add: tt task_def)
          have "\<forall>t \<in> set (ttt # new).
              \<exists>e \<in> set (heap (staticPool d)). t = task_of_entry e \<and> admits d e"
            using r(2) sub a0 t0 e0 by auto
          moreover have "startStaticDials_loop d n started res
              = startStaticDials_loop d1 n (wrap64 (started + 1)) (res @ [ttt])"
            using c1 c2 None by (auto simp: unf tt)
          then have "startStaticDials_loop d n started res = Inr (started', res @ (ttt # new), d')"
            using r(1) by simp
          ultimately show ?thesis by blast
        qed
      qed
    qed
  qed
qed

lemma example_admitting_sched_eq:
  "example_admitting_sched = example_static_sched\<lparr>staticPool := run_ops example_ops\<rparr>"
  by (simp add: example_admitting_sched_def example_static_sched_def)

lemma example_started:
  "started_flags example_admitting_sched
     = [(8, {staticDialedConn}), (7, {dynDialedConn}), (9, {dynDialedConn})]"
  by code_simp

text \<open>
  C9, as amended. On every scheduler whose pool is in a state that \<open>add\<close> and
  \<open>popImpl\<close> reach, \<open>startStaticDials\<close> returns, and every task it returns was built
  from an entry of the pool that passed \<open>checkDial\<close>: the task has the static flag
  exactly when the entry is marked static, and the dynamic flag otherwise; a task with
  the static flag has its identifier in the static set. An entry that is not marked
  static gives a dynamic task also when its identifier is in the static set.
\<close>

theorem startStaticDials_flags:
  "\<exists>started res d'.
     startStaticDials (d\<lparr>staticPool := run_ops ops\<rparr>) = Inr (started, res, d')
     \<and> (\<forall>t \<in> set res. \<exists>e \<in> set (heap (run_ops ops)).
           dest t = addr e
           \<and> (staticDialedConn \<in> flags t) = isStatic e
           \<and> (dynDialedConn \<in> flags t) = (\<not> isStatic e)
           \<and> (flags t = {staticDialedConn} \<or> flags t = {dynDialedConn})
           \<and> (staticDialedConn \<in> flags t \<longrightarrow> node_ID (dest t) \<in> static d)
           \<and> checkDial d (dest t) = None)"
proof -
  define d0 where "d0 = d\<lparr>staticPool := run_ops ops\<rparr>"
  have inv: "pool_inv (staticPool d0)" by (simp add: d0_def pool_inv_run_ops)
  obtain started res d' where
    r: "startStaticDials_loop d0 (freeDialSlots d0) 0 [] = Inr (started, [] @ res, d')"
      "\<forall>t \<in> set res. \<exists>e \<in> set (heap (staticPool d0)). t = task_of_entry e \<and> admits d0 e"
    using loop_admits [OF inv, of "freeDialSlots d0" 0 "[]"] by blast
  have 1: "startStaticDials d0 = Inr (started, res, d')"
    using r(1) by (simp add: startStaticDials_def)
  have 2: "\<exists>e \<in> set (heap (run_ops ops)).
           dest t = addr e
           \<and> (staticDialedConn \<in> flags t) = isStatic e
           \<and> (dynDialedConn \<in> flags t) = (\<not> isStatic e)
           \<and> (flags t = {staticDialedConn} \<or> flags t = {dynDialedConn})
           \<and> (staticDialedConn \<in> flags t \<longrightarrow> node_ID (dest t) \<in> static d)
           \<and> checkDial d (dest t) = None" if "t \<in> set res" for t
  proof -
    from r(2) that
    have "\<exists>e \<in> set (heap (staticPool d0)). t = task_of_entry e \<and> admits d0 e"
      by blast
    then obtain e where e: "e \<in> set (heap (run_ops ops))" "t = task_of_entry e" "admits d0 e"
      by (auto simp: d0_def)
    have "dest t = addr e" "(staticDialedConn \<in> flags t) = isStatic e"
        "(dynDialedConn \<in> flags t) = (\<not> isStatic e)"
        "flags t = {staticDialedConn} \<or> flags t = {dynDialedConn}"
      using e(2) by (simp_all add: task_of_entry_def newDialTask_def)
    moreover have "staticDialedConn \<in> flags t \<longrightarrow> node_ID (dest t) \<in> static d"
        "checkDial d (dest t) = None"
      using e(2,3) by (simp_all add: task_of_entry_def newDialTask_def admits_def d0_def)
    ultimately show ?thesis using e(1) by blast
  qed
  show ?thesis
    using 1 2 unfolding d0_def by blast
qed

theorem startStaticDials_flags_witness:
  "\<exists>started res d'.
     startStaticDials example_admitting_sched = Inr (started, res, d')
     \<and> map (\<lambda>t. (node_ID (dest t), flags t)) res
         = [(8, {staticDialedConn}), (7, {dynDialedConn}), (9, {dynDialedConn})]
     \<and> (\<exists>e \<in> set (heap (run_ops example_ops)). dest (hd res) = addr e \<and> isStatic e)
     \<and> node_ID (dest (hd res)) \<in> static example_static_sched"
proof -
  from startStaticDials_flags [where d = example_static_sched and ops = example_ops]
  obtain started res d' where
    r1: "startStaticDials (example_static_sched\<lparr>staticPool := run_ops example_ops\<rparr>)
          = Inr (started, res, d')"
    and r2: "\<forall>t \<in> set res. \<exists>e \<in> set (heap (run_ops example_ops)).
           dest t = addr e
           \<and> (staticDialedConn \<in> flags t) = isStatic e
           \<and> (dynDialedConn \<in> flags t) = (\<not> isStatic e)
           \<and> (flags t = {staticDialedConn} \<or> flags t = {dynDialedConn})
           \<and> (staticDialedConn \<in> flags t \<longrightarrow> node_ID (dest t) \<in> static example_static_sched)
           \<and> checkDial example_static_sched (dest t) = None"
    by (elim exE conjE) (rule that)
  have r: "startStaticDials example_admitting_sched = Inr (started, res, d')"
    using r1 by (simp only: example_admitting_sched_eq)
  have m: "map (\<lambda>t. (node_ID (dest t), flags t)) res
         = [(8, {staticDialedConn}), (7, {dynDialedConn}), (9, {dynDialedConn})]"
    using example_started by (simp add: started_flags_def r)
  then have ne: "res \<noteq> []" by auto
  then have h: "hd res \<in> set res" by simp
  have f: "flags (hd res) = {staticDialedConn}"
    using m ne by (cases res) auto
  from r2 h have "\<exists>e \<in> set (heap (run_ops example_ops)).
           dest (hd res) = addr e
           \<and> (staticDialedConn \<in> flags (hd res)) = isStatic e
           \<and> (dynDialedConn \<in> flags (hd res)) = (\<not> isStatic e)
           \<and> (flags (hd res) = {staticDialedConn} \<or> flags (hd res) = {dynDialedConn})
           \<and> (staticDialedConn \<in> flags (hd res)
                \<longrightarrow> node_ID (dest (hd res)) \<in> static example_static_sched)
           \<and> checkDial example_static_sched (dest (hd res)) = None"
    by (rule bspec)
  then obtain e where e: "e \<in> set (heap (run_ops example_ops))" "dest (hd res) = addr e"
      "(staticDialedConn \<in> flags (hd res)) = isStatic e"
      "staticDialedConn \<in> flags (hd res)
         \<longrightarrow> node_ID (dest (hd res)) \<in> static example_static_sched"
    by (elim bexE conjE) (rule that)
  have s: "isStatic e" using e(3) f by simp
  have i: "node_ID (dest (hd res)) \<in> static example_static_sched"
    using e(4) f by simp
  have x: "\<exists>e \<in> set (heap (run_ops example_ops)). dest (hd res) = addr e \<and> isStatic e"
    using e(1,2) s by (intro bexI [of _ e]) simp_all
  show ?thesis
    using r m x i by (intro exI [of _ started] exI [of _ res] exI [of _ d'] conjI)
qed

text \<open>
  The claim as it was stated fails: node 7 is in the static set, its entry came from
  discovery, and its task has the dynamic flag.
\<close>

theorem static_member_dialed_dynamic:
  "started_flags (example_admitting_sched\<lparr>static := {7, 8}\<rparr>)
     = [(8, {staticDialedConn}), (7, {dynDialedConn}), (9, {dynDialedConn})]
   \<and> 7 \<in> static (example_admitting_sched\<lparr>static := {7, 8}\<rparr>)"
  by code_simp

subsection \<open>The dial history\<close>

text \<open>
  C7, as amended. \<open>startDial\<close> records the node's identifier in the history with the
  expiry \<open>time.Now()\<close> plus \<open>dialHistoryExpiration\<close>, that is the inbound throttle time
  plus 5 seconds. While an identifier is in the history \<open>checkDial\<close> rejects the node,
  and the rejection is \<open>errRecentlyDialed\<close> when none of the five earlier tests
  rejects it. The dispatcher keeps an entry before its expiry and removes it from then
  on, after which \<open>checkDial\<close> does not return \<open>errRecentlyDialed\<close>.
\<close>

theorem history_lifecycle:
  "history (fst (startDial itt d task w)) (node_ID (dest task))
     = Some (time_Now w (ticks w) + dialHistoryExpiration itt)
   \<and> dialHistoryExpiration itt = itt + 5 * Second
   \<and> (history_ContainsID (history s) (node_ID n) \<longrightarrow> checkDial s n \<noteq> None)
   \<and> (history_ContainsID (history s) (node_ID n)
        \<and> node_ID n \<noteq> self (config s) \<and> \<not> (node_IP n \<noteq> None \<and> node_TCP n = 0)
        \<and> node_ID n \<notin> dialing s \<and> node_ID n \<notin> peers s
        \<and> \<not> (\<exists>contains. netRestrict (config s) = Some contains \<and> \<not> contains (node_IP n))
      \<longrightarrow> checkDial s n = Some errRecentlyDialed)
   \<and> (\<forall>e. history s (node_ID n) = Some e \<and> now < e \<longrightarrow>
        history_ContainsID (history_dispatch now (history s)) (node_ID n))
   \<and> (\<forall>e. history s (node_ID n) = Some e \<and> e \<le> now \<longrightarrow>
        \<not> history_ContainsID (history_dispatch now (history s)) (node_ID n)
        \<and> checkDial (s\<lparr>history := history_dispatch now (history s)\<rparr>) n
            \<noteq> Some errRecentlyDialed)"
proof -
  have 1: "history (fst (startDial itt d task w)) (node_ID (dest task))
     = Some (time_Now w (ticks w) + dialHistoryExpiration itt)"
    by (simp add: startDial_def Let_def split_def history_Add_def)
  have 2: "dialHistoryExpiration itt = itt + 5 * Second"
    by (simp add: dialHistoryExpiration_def)
  have 3: "history_ContainsID (history s) (node_ID n) \<longrightarrow> checkDial s n \<noteq> None"
    by (simp add: checkDial_def)
  have 4: "history_ContainsID (history s) (node_ID n)
        \<and> node_ID n \<noteq> self (config s) \<and> \<not> (node_IP n \<noteq> None \<and> node_TCP n = 0)
        \<and> node_ID n \<notin> dialing s \<and> node_ID n \<notin> peers s
        \<and> \<not> (\<exists>contains. netRestrict (config s) = Some contains \<and> \<not> contains (node_IP n))
      \<longrightarrow> checkDial s n = Some errRecentlyDialed"
    by (cases "netRestrict (config s)") (simp_all add: checkDial_def)
  have 5: "\<forall>e. history s (node_ID n) = Some e \<and> now < e \<longrightarrow>
        history_ContainsID (history_dispatch now (history s)) (node_ID n)"
    by (simp add: history_ContainsID_def history_dispatch_def)
  have 6: "\<forall>e. history s (node_ID n) = Some e \<and> e \<le> now \<longrightarrow>
        \<not> history_ContainsID (history_dispatch now (history s)) (node_ID n)
        \<and> checkDial (s\<lparr>history := history_dispatch now (history s)\<rparr>) n
            \<noteq> Some errRecentlyDialed"
    by (auto simp: history_ContainsID_def history_dispatch_def checkDial_def split: option.splits)
  show ?thesis using 1 2 3 4 5 6 by (intro conjI)
qed

theorem history_lifecycle_witness:
  "history (fst (startDial (30 * Second) example_sched example_dynamic_task example_world)) 7
     = Some (1000 + 35 * Second)
   \<and> history_ContainsID (history example_sched) 4
   \<and> checkDial example_sched (example_node 4 (Some [10, 0, 0, 1]) 30303) = Some errRecentlyDialed
   \<and> history_ContainsID (history_dispatch 99 (history example_sched)) 4
   \<and> \<not> history_ContainsID (history_dispatch 100 (history example_sched)) 4
   \<and> checkDial (example_sched\<lparr>history := history_dispatch 100 (history example_sched)\<rparr>)
        (example_node 4 (Some [10, 0, 0, 1]) 30303) \<noteq> Some errRecentlyDialed"
proof -
  note defs = example_sched_def example_config_def example_node_def example_world_def
    example_dynamic_task_def newDialTask_def history_ContainsID_def
  let ?n = "example_node 4 (Some [10, 0, 0, 1]) 30303"
  have 1: "history (fst (startDial (30 * Second) example_sched example_dynamic_task example_world)) 7
     = Some (1000 + 35 * Second)"
    using history_lifecycle [where itt = "30 * Second" and d = example_sched
        and task = example_dynamic_task and w = example_world]
    by (simp add: example_dynamic_task_def newDialTask_def example_node_def example_world_def)
  have 2: "history_ContainsID (history example_sched) 4"
    by (simp add: defs)
  have 3: "checkDial example_sched ?n = Some errRecentlyDialed"
    using history_lifecycle [where s = example_sched and n = ?n] 2
    by (simp add: defs)
  have 4: "history_ContainsID (history_dispatch 99 (history example_sched)) 4"
    using history_lifecycle [where s = example_sched and n = ?n and now = 99]
    by (simp add: example_sched_def example_node_def)
  have 5: "\<not> history_ContainsID (history_dispatch 100 (history example_sched)) 4
     \<and> checkDial (example_sched\<lparr>history := history_dispatch 100 (history example_sched)\<rparr>) ?n
        \<noteq> Some errRecentlyDialed"
    using history_lifecycle [where s = example_sched and n = ?n and now = 100]
    by (simp add: example_sched_def example_node_def)
  show ?thesis using 1 2 3 4 5 by simp
qed

text \<open>
  The claim as it was stated fails: right after \<open>startDial\<close> the node is in the
  history and \<open>checkDial\<close> returns \<open>errAlreadyDialing\<close>.
\<close>

theorem in_history_already_dialing:
  "history_ContainsID
     (history (fst (startDial (30 * Second) example_sched example_dynamic_task example_world))) 7
   \<and> node_ID (dest example_dynamic_task) = 7
   \<and> checkDial (fst (startDial (30 * Second) example_sched example_dynamic_task example_world))
        (dest example_dynamic_task) = Some errAlreadyDialing"
  by (simp add: startDial_def Let_def split_def history_Add_def history_ContainsID_def
      checkDial_def example_sched_def example_config_def example_node_def example_world_def
      example_dynamic_task_def newDialTask_def)

end
